theory Spec2Isabelle
  imports Main "HOL-Library.Word" "HOL-Library.List_Lexorder"
begin

unbundle bit_operations_syntax

section \<open>Data model of the channel subsystem\<close>

text \<open>
  The C source works on \<open>NvU32\<close> cursors and counters and on \<open>NvU64\<close> tracking values.
  They are modelled as machine words, so that \<open>+\<close>, \<open>-\<close> and \<open>mod\<close> are the
  C operations on unsigned integers, wrap-around included.
\<close>

type_synonym NvU16 = "16 word"
type_synonym NvU32 = "32 word"
type_synonym NvU64 = "64 word"

text \<open>
  What C leaves undefined is a value of the model: the remainder by a ring capacity of zero,
  an array access outside the array, a read through a null pointer.
\<close>

datatype fault = DivideByZero | OutOfBounds | NullDereference

text \<open>The status codes of \<open>NV_STATUS\<close> that the source file names.\<close>

datatype NV_STATUS =
    NV_OK
  | NV_ERR_GENERIC
  | NV_ERR_NO_MEMORY
  | NV_ERR_ECC_ERROR
  | NV_ERR_RC_ERROR
  | NV_ERR_NOT_SUPPORTED
  | NV_ERR_OPERATING_SYSTEM

datatype uvm_channel_update_mode_t =
    UVM_CHANNEL_UPDATE_MODE_COMPLETED
  | UVM_CHANNEL_UPDATE_MODE_FORCE_ALL

text \<open>
  \<open>uvm_gpfifo_entry_t\<close>. The field \<open>push_info\<close> is a pointer into the channel's
  \<open>push_infos\<close> array; it is modelled by the index it points at, \<open>None\<close> for the null
  pointer of a zero-initialised entry.
\<close>

record uvm_gpfifo_entry_t =
  tracking_semaphore_value :: NvU64
  pushbuffer_offset :: NvU32
  pushbuffer_size :: NvU32
  push_info :: "NvU32 option"

text \<open>
  \<open>uvm_channel_t\<close>, with the fields the source file reads and writes.
  \<open>numGpFifoEntries\<close> and \<open>errorNotifier_status\<close> belong to \<open>channel_info\<close>,
  \<open>queued_value\<close> to \<open>tracking_sem\<close>. \<open>available_push_infos\<close> is the kernel list of
  free metadata slots, as the list of their indices in list order.

  Two fields record calls to collaborators, in call order, so that claims about them can be
  stated: \<open>pushbuffer_completed\<close> holds the entries handed to
  \<open>uvm_pushbuffer_mark_completed\<close>, \<open>gpput_writes\<close> the values handed to
  \<open>host_hal->write_gpu_put\<close> (the doorbell).

  All functions below run under the pool's spin lock in the source; each is one atomic step
  of the model.
\<close>

record uvm_channel_t =
  numGpFifoEntries :: NvU32
  errorNotifier_status :: NvU16
  cpu_put :: NvU32
  gpu_get :: NvU32
  current_pushes_count :: NvU32
  gpfifo_entries :: "uvm_gpfifo_entry_t list"
  available_push_infos :: "NvU32 list"
  queued_value :: NvU64
  pushbuffer_completed :: "uvm_gpfifo_entry_t list"
  gpput_writes :: "NvU32 list"

section \<open>Reservation: claiming a ring slot\<close>

text \<open>
  \<open>is_channel_available\<close> (lines 126 to 135):
  \<^verbatim>\<open>next_put = (cpu_put + current_pushes_count + 1) % numGpFifoEntries;
  return (next_put != gpu_get);\<close>
\<close>

definition is_channel_available :: "uvm_channel_t \<Rightarrow> fault + bool" where
  "is_channel_available channel =
     (if numGpFifoEntries channel = 0 then Inl DivideByZero
      else
        let next_put = (cpu_put channel + current_pushes_count channel + 1)
                         mod numGpFifoEntries channel
        in Inr (next_put \<noteq> gpu_get channel))"

text \<open>
  \<open>try_claim_channel\<close> (lines 137 to 151): the flag \<open>claimed\<close> and the channel after
  the call.
\<close>

definition try_claim_channel :: "uvm_channel_t \<Rightarrow> fault + (bool \<times> uvm_channel_t)" where
  "try_claim_channel channel =
     (case is_channel_available channel of
        Inl f \<Rightarrow> Inl f
      | Inr available \<Rightarrow>
          if available
          then Inr (True,
                 channel\<lparr>current_pushes_count := current_pushes_count channel + 1\<rparr>)
          else Inr (False, channel))"

section \<open>Progress reclamation\<close>

text \<open>
  The loop of \<open>uvm_channel_update_progress_with_max\<close> (lines 72 to 82), on the channel and
  the locals \<open>gpu_get\<close> and \<open>completed_count\<close>; \<open>cpu_put\<close> and \<open>completed_value\<close> were
  read before the loop. Each round reads \<open>gpfifo_entries[gpu_get]\<close>, hands the entry to
  \<open>uvm_pushbuffer_mark_completed\<close>, appends its metadata slot to
  \<open>available_push_infos\<close> (\<open>list_add_tail\<close>) and advances \<open>gpu_get\<close> modulo the ring
  capacity.
\<close>

function update_progress_loop ::
  "uvm_channel_t \<Rightarrow> NvU64 \<Rightarrow> NvU32 \<Rightarrow> uvm_channel_update_mode_t \<Rightarrow> NvU32 \<Rightarrow> NvU32 \<Rightarrow> NvU32
     \<Rightarrow> fault + (uvm_channel_t \<times> NvU32 \<times> NvU32)" where
  "update_progress_loop channel completed_value max_to_complete mode cpu_put_l gpu_get_l
       completed_count =
     (if gpu_get_l \<noteq> cpu_put_l \<and> completed_count < max_to_complete then
        (if \<not> unat gpu_get_l < length (gpfifo_entries channel) then Inl OutOfBounds
         else if mode = UVM_CHANNEL_UPDATE_MODE_COMPLETED
                 \<and> tracking_semaphore_value (gpfifo_entries channel ! unat gpu_get_l)
                      > completed_value
         then Inr (channel, gpu_get_l, completed_count)
         else if push_info (gpfifo_entries channel ! unat gpu_get_l) = None
         then Inl NullDereference
         else if numGpFifoEntries channel = 0 then Inl DivideByZero
         else update_progress_loop
                (channel\<lparr>pushbuffer_completed :=
                            pushbuffer_completed channel
                              @ [gpfifo_entries channel ! unat gpu_get_l],
                         available_push_infos :=
                            available_push_infos channel
                              @ [the (push_info (gpfifo_entries channel ! unat gpu_get_l))]\<rparr>)
                completed_value max_to_complete mode cpu_put_l
                ((gpu_get_l + 1) mod numGpFifoEntries channel)
                (completed_count + 1))
      else Inr (channel, gpu_get_l, completed_count))"
  by pat_completeness auto
termination
proof (relation "measure (\<lambda>(channel, completed_value, max_to_complete, mode, cpu_put_l,
                            gpu_get_l, completed_count).
                          unat max_to_complete - unat completed_count)")
  show "wf (measure (\<lambda>(channel :: uvm_channel_t, completed_value :: NvU64,
                       max_to_complete :: NvU32, mode :: uvm_channel_update_mode_t,
                       cpu_put_l :: NvU32, gpu_get_l :: NvU32, completed_count :: NvU32).
                      unat max_to_complete - unat completed_count))"
    by simp
next
  fix channel :: uvm_channel_t and completed_value :: NvU64 and max_to_complete :: NvU32
    and mode :: uvm_channel_update_mode_t and cpu_put_l gpu_get_l completed_count :: NvU32
  assume "gpu_get_l \<noteq> cpu_put_l \<and> completed_count < max_to_complete"
  then have lt: "unat completed_count < unat max_to_complete"
    by (simp add: word_less_nat_alt)
  have "unat max_to_complete < 2 ^ 32"
    using unsigned_less [of max_to_complete, where 'a = nat] by simp
  with lt have "unat (completed_count + 1) = unat completed_count + 1"
    by (simp add: unat_word_ariths)
  with lt show
    "((channel\<lparr>pushbuffer_completed :=
                  pushbuffer_completed channel @ [gpfifo_entries channel ! unat gpu_get_l],
                available_push_infos :=
                  available_push_infos channel
                    @ [the (push_info (gpfifo_entries channel ! unat gpu_get_l))]\<rparr>,
       completed_value, max_to_complete, mode, cpu_put_l,
       (gpu_get_l + 1) mod numGpFifoEntries channel, completed_count + 1),
      (channel, completed_value, max_to_complete, mode, cpu_put_l, gpu_get_l,
       completed_count))
     \<in> measure (\<lambda>(channel, completed_value, max_to_complete, mode, cpu_put_l,
                   gpu_get_l, completed_count).
                  unat max_to_complete - unat completed_count)"
    by simp
qed

text \<open>
  \<open>uvm_channel_update_progress_with_max\<close> (lines 56 to 94). The value that
  \<open>uvm_channel_update_completed_value\<close> reads from the tracking counter at line 65 is the
  argument \<open>completed_value\<close>. The result is \<open>pending_gpfifos\<close> and the channel after the
  call.
\<close>

definition uvm_channel_update_progress_with_max ::
  "uvm_channel_t \<Rightarrow> NvU64 \<Rightarrow> NvU32 \<Rightarrow> uvm_channel_update_mode_t
     \<Rightarrow> fault + (NvU32 \<times> uvm_channel_t)" where
  "uvm_channel_update_progress_with_max channel completed_value max_to_complete mode =
     (case update_progress_loop channel completed_value max_to_complete mode
             (cpu_put channel) (gpu_get channel) 0 of
        Inl f \<Rightarrow> Inl f
      | Inr (channel', gpu_get_l, completed_count) \<Rightarrow>
          Inr (if cpu_put channel \<ge> gpu_get_l
               then cpu_put channel - gpu_get_l
               else numGpFifoEntries channel - gpu_get_l + cpu_put channel,
               channel'\<lparr>gpu_get := gpu_get_l\<rparr>))"

text \<open>\<open>uvm_channel_update_progress\<close> (lines 96 to 101): budget 8, completed mode.\<close>

definition uvm_channel_update_progress ::
  "uvm_channel_t \<Rightarrow> NvU64 \<Rightarrow> fault + (NvU32 \<times> uvm_channel_t)" where
  "uvm_channel_update_progress channel completed_value =
     uvm_channel_update_progress_with_max channel completed_value 8
       UVM_CHANNEL_UPDATE_MODE_COMPLETED"

text \<open>\<open>channel_update_progress_all\<close> (lines 106 to 109): the budget is the ring capacity.\<close>

definition channel_update_progress_all ::
  "uvm_channel_t \<Rightarrow> NvU64 \<Rightarrow> uvm_channel_update_mode_t \<Rightarrow> fault + (NvU32 \<times> uvm_channel_t)" where
  "channel_update_progress_all channel completed_value mode =
     uvm_channel_update_progress_with_max channel completed_value
       (numGpFifoEntries channel) mode"

section \<open>Submission\<close>

text \<open>
  \<open>uvm_push_t\<close> as \<open>uvm_channel_end_push\<close> sees it. \<open>push_size\<close> is what
  \<open>uvm_push_get_size\<close> returns once the completion-signal command is embedded,
  \<open>push_offset\<close> and \<open>push_gpu_va\<close> what the pushbuffer reports for the push.
  \<open>semaphore_payloads\<close> records the payloads passed to \<open>ce_hal->semaphore_release\<close>.
\<close>

record uvm_push_t =
  push_size :: NvU32
  push_offset :: NvU32
  push_gpu_va :: NvU64
  push_info_index :: NvU32
  channel_tracking_value :: NvU64
  semaphore_payloads :: "NvU32 list"

text \<open>
  \<open>uvm_channel_end_push\<close> (lines 243 to 312). \<open>UVM_ASSERT\<close> only reports: after a failed
  \<open>UVM_ASSERT(current_pushes_count > 0)\<close> the decrement still runs and wraps. The calls
  \<open>set_gpfifo_entry\<close> and \<open>uvm_pushbuffer_end_push\<close> act on the hardware ring and on
  the pushbuffer only.
\<close>

definition uvm_channel_end_push ::
  "uvm_channel_t \<Rightarrow> uvm_push_t \<Rightarrow> fault + (uvm_channel_t \<times> uvm_push_t)" where
  "uvm_channel_end_push channel push =
     (let new_tracking_value = queued_value channel + 1;
          new_payload = (ucast new_tracking_value :: NvU32);
          cpu_put_l = cpu_put channel
      in if numGpFifoEntries channel = 0 then Inl DivideByZero
         else if \<not> unat cpu_put_l < length (gpfifo_entries channel) then Inl OutOfBounds
         else
           let new_cpu_put = (cpu_put_l + 1) mod numGpFifoEntries channel;
               entry = \<lparr>tracking_semaphore_value = new_tracking_value,
                        pushbuffer_offset = push_offset push,
                        pushbuffer_size = push_size push,
                        push_info = Some (push_info_index push)\<rparr>
           in Inr (channel\<lparr>queued_value := new_tracking_value,
                           gpfifo_entries := (gpfifo_entries channel)[unat cpu_put_l := entry],
                           current_pushes_count := current_pushes_count channel - 1,
                           cpu_put := new_cpu_put,
                           gpput_writes := gpput_writes channel @ [new_cpu_put]\<rparr>,
                   push\<lparr>semaphore_payloads := semaphore_payloads push @ [new_payload],
                        push_info_index := - 1,
                        channel_tracking_value := new_tracking_value\<rparr>))"

section \<open>Health check\<close>

text \<open>
  The part of \<open>uvm_gpu_t\<close> that the health check reads: \<open>ecc.enabled\<close>, and whether the
  value behind \<open>ecc.error_notifier\<close> is nonzero at the moment of the read.
\<close>

record uvm_gpu_ecc_t =
  ecc_enabled :: bool
  ecc_error_notifier :: bool

text \<open>\<open>uvm_channel_get_status\<close> (lines 354 to 372).\<close>

definition uvm_channel_get_status :: "uvm_channel_t \<Rightarrow> uvm_gpu_ecc_t \<Rightarrow> NV_STATUS" where
  "uvm_channel_get_status channel ecc =
     (if errorNotifier_status channel = 0 then NV_OK
      else if ecc_enabled ecc \<and> ecc_error_notifier ecc then NV_ERR_ECC_ERROR
      else NV_ERR_RC_ERROR)"

section \<open>Vocabulary for stating the ring properties\<close>

text \<open>
  The definitions of this section are not in the source. They name what the properties
  below talk about: distances and slices on a ring of \<open>N\<close> slots, the entries pending between
  \<open>gpu_get\<close> and \<open>cpu_put\<close>, and the shape of a channel as \<open>create_channel\<close> leaves
  it (a ring array of \<open>numGpFifoEntries\<close> entries, both cursors inside it).
\<close>

declare update_progress_loop.simps [simp del]

definition ring_dist :: "nat \<Rightarrow> nat \<Rightarrow> nat \<Rightarrow> nat" where
  "ring_dist N g p = (p + N - g) mod N"

definition ring_slice :: "'a list \<Rightarrow> nat \<Rightarrow> nat \<Rightarrow> nat \<Rightarrow> 'a list" where
  "ring_slice es N g k = map (\<lambda>j. es ! ((g + j) mod N)) [0..<k]"

definition channel_wf :: "uvm_channel_t \<Rightarrow> bool" where
  "channel_wf c \<longleftrightarrow>
     numGpFifoEntries c \<noteq> 0
     \<and> length (gpfifo_entries c) = unat (numGpFifoEntries c)
     \<and> cpu_put c < numGpFifoEntries c
     \<and> gpu_get c < numGpFifoEntries c"

text \<open>The number of ring entries submitted and not yet retired, and those entries, oldest first.\<close>

definition pending_count :: "uvm_channel_t \<Rightarrow> nat" where
  "pending_count c = ring_dist (unat (numGpFifoEntries c)) (unat (gpu_get c)) (unat (cpu_put c))"

definition pending_entries :: "uvm_channel_t \<Rightarrow> uvm_gpfifo_entry_t list" where
  "pending_entries c =
     ring_slice (gpfifo_entries c) (unat (numGpFifoEntries c)) (unat (gpu_get c))
       (pending_count c)"

text \<open>
  How many of the pending entries \<open>pend\<close> one reclamation call retires: never more than
  the budget; all of them in force mode; in completed mode those before the first entry whose
  tracking value exceeds the completed value.
\<close>

definition retire_count ::
  "uvm_channel_update_mode_t \<Rightarrow> NvU64 \<Rightarrow> nat \<Rightarrow> uvm_gpfifo_entry_t list \<Rightarrow> nat" where
  "retire_count mode completed_value budget pend =
     min budget
       (case mode of
          UVM_CHANNEL_UPDATE_MODE_FORCE_ALL \<Rightarrow> length pend
        | UVM_CHANNEL_UPDATE_MODE_COMPLETED \<Rightarrow>
            length (takeWhile (\<lambda>e. tracking_semaphore_value e \<le> completed_value) pend))"

text \<open>The channel after its \<open>r\<close> oldest pending entries are retired.\<close>

definition retire_step :: "uvm_channel_t \<Rightarrow> nat \<Rightarrow> uvm_channel_t" where
  "retire_step c r =
     c\<lparr>pushbuffer_completed := pushbuffer_completed c @ take r (pending_entries c),
       available_push_infos :=
         available_push_infos c @ map (\<lambda>e. the (push_info e)) (take r (pending_entries c)),
       gpu_get := word_of_nat ((unat (gpu_get c) + r) mod unat (numGpFifoEntries c))\<rparr>"

section \<open>Channel creation, begin of a push, and the reachable states\<close>

text \<open>
  The channel that a successful \<open>create_channel\<close> (lines 436 to 508) returns, for the ring
  capacity \<open>n\<close> that \<open>nvUvmInterfaceChannelAllocate\<close> reports: the structure and both
  arrays come from \<open>uvm_kvmalloc_zero\<close>, and every metadata slot is appended to
  \<open>available_push_infos\<close> in index order.
\<close>

definition created_channel :: "NvU32 \<Rightarrow> uvm_channel_t" where
  "created_channel n =
     \<lparr>numGpFifoEntries = n, errorNotifier_status = 0, cpu_put = 0, gpu_get = 0,
      current_pushes_count = 0,
      gpfifo_entries =
        replicate (unat n)
          \<lparr>tracking_semaphore_value = 0, pushbuffer_offset = 0, pushbuffer_size = 0,
           push_info = None\<rparr>,
      available_push_infos = map word_of_nat [0..<unat n],
      queued_value = 0, pushbuffer_completed = [], gpput_writes = []\<rparr>"

text \<open>
  \<open>uvm_channel_begin_push\<close> with \<open>channel_get_available_push_info_index\<close> (lines 206 to
  241). \<open>pb_status\<close> is what \<open>uvm_pushbuffer_begin_push\<close> returns. With an empty free
  list \<open>list_first_entry_or_null\<close> is null and \<open>list_del\<close> reads through it.
\<close>

definition uvm_channel_begin_push ::
  "uvm_channel_t \<Rightarrow> uvm_push_t \<Rightarrow> NV_STATUS
     \<Rightarrow> fault + (NV_STATUS \<times> uvm_channel_t \<times> uvm_push_t)" where
  "uvm_channel_begin_push channel push pb_status =
     (if pb_status \<noteq> NV_OK then Inr (pb_status, channel, push)
      else case available_push_infos channel of
             [] \<Rightarrow> Inl NullDereference
           | info # rest \<Rightarrow>
               Inr (NV_OK, channel\<lparr>available_push_infos := rest\<rparr>,
                    push\<lparr>channel_tracking_value := 0, push_info_index := info\<rparr>))"

text \<open>
  The states a channel can be in: created, then changed by claims, begun and ended pushes,
  reclamation with any completed value, budget and mode, and the device writing the status
  field of the fault notifier. A push ends only on a channel
  with an outstanding claim: that is the contract \<open>uvm_channel_end_push\<close> asserts
  (\<open>UVM_ASSERT(channel->current_pushes_count > 0)\<close>).
\<close>

inductive reachable :: "uvm_channel_t \<Rightarrow> bool" where
  created: "n \<noteq> 0 \<Longrightarrow> reachable (created_channel n)"
| claim: "reachable c \<Longrightarrow> try_claim_channel c = Inr (claimed, c') \<Longrightarrow> reachable c'"
| begin_push:
    "reachable c \<Longrightarrow> uvm_channel_begin_push c push pb_status = Inr (status, c', push')
       \<Longrightarrow> reachable c'"
| end_push:
    "reachable c \<Longrightarrow> current_pushes_count c \<noteq> 0
       \<Longrightarrow> uvm_channel_end_push c push = Inr (c', push') \<Longrightarrow> reachable c'"
| progress:
    "reachable c
       \<Longrightarrow> uvm_channel_update_progress_with_max c completed_value budget mode
             = Inr (pending, c')
       \<Longrightarrow> reachable c'"
| notified: "reachable c \<Longrightarrow> reachable (c\<lparr>errorNotifier_status := s\<rparr>)"

text \<open>
  The ring invariant of the specification: claimed slots plus pending entries never exceed
  \<open>N - 1\<close>.
\<close>

definition ring_invariant :: "uvm_channel_t \<Rightarrow> bool" where
  "ring_invariant c \<longleftrightarrow>
     channel_wf c
     \<and> unat (current_pushes_count c) + pending_count c \<le> unat (numGpFifoEntries c) - 1"

text \<open>
  Invariants of the reachable states, used to state and prove the properties below. \<open>slots_bound\<close>:
  every pending entry carries a metadata slot. \<open>channel_inv\<close> adds the ring invariant and
  the balance of the two collaborator logs: entries submitted (doorbell writes) are those
  retired plus those pending. \<open>order_inv\<close>: the tracking counter counts the submissions,
  and retired followed by pending entries carry strictly increasing tracking values, none
  above the counter.
\<close>

definition slots_bound :: "uvm_channel_t \<Rightarrow> bool" where
  "slots_bound c \<longleftrightarrow> (\<forall>e \<in> set (pending_entries c). push_info e \<noteq> None)"

definition channel_inv :: "uvm_channel_t \<Rightarrow> bool" where
  "channel_inv c \<longleftrightarrow>
     ring_invariant c \<and> slots_bound c
     \<and> length (gpput_writes c) = length (pushbuffer_completed c) + pending_count c"

definition order_inv :: "uvm_channel_t \<Rightarrow> bool" where
  "order_inv c \<longleftrightarrow>
     unat (queued_value c) = length (gpput_writes c)
     \<and> sorted_wrt (<) (map tracking_semaphore_value (pushbuffer_completed c @ pending_entries c))
     \<and> (\<forall>e \<in> set (pushbuffer_completed c @ pending_entries c).
            tracking_semaphore_value e \<le> queued_value c)"

section \<open>Engine selection\<close>

text \<open>
  \<open>uvm_channel_type_t\<close>, in the order of the enumeration (the order of the cases of
  \<open>uvm_channel_type_to_string\<close>; \<open>UVM_CHANNEL_TYPE_COUNT\<close> is 6).
\<close>

datatype uvm_channel_type_t =
    UVM_CHANNEL_TYPE_CPU_TO_GPU
  | UVM_CHANNEL_TYPE_GPU_TO_CPU
  | UVM_CHANNEL_TYPE_GPU_INTERNAL
  | UVM_CHANNEL_TYPE_MEMOPS
  | UVM_CHANNEL_TYPE_GPU_TO_GPU
  | UVM_CHANNEL_TYPE_ANY

definition channel_types :: "uvm_channel_type_t list" where
  "channel_types =
     [UVM_CHANNEL_TYPE_CPU_TO_GPU, UVM_CHANNEL_TYPE_GPU_TO_CPU, UVM_CHANNEL_TYPE_GPU_INTERNAL,
      UVM_CHANNEL_TYPE_MEMOPS, UVM_CHANNEL_TYPE_GPU_TO_GPU, UVM_CHANNEL_TYPE_ANY]"

text \<open>
  \<open>UvmGpuCopyEngineCaps\<close>, one row of the capability table \<open>gpu->ce_caps\<close>. The
  structure is declared outside the source file; the fields are those the file reads, the
  flags as truth values and \<open>cePceMask\<close> as the 32-bit mask whose set bits
  \<open>hweight32\<close> counts.
\<close>

record UvmGpuCopyEngineCaps =
  supported :: bool
  grce :: bool
  shared :: bool
  sysmemRead :: bool
  sysmemWrite :: bool
  sysmem :: bool
  nvlinkP2p :: bool
  p2p :: bool
  cePceMask :: NvU32

text \<open>
  \<open>UVM_COPY_ENGINE_COUNT_MAX\<close> is defined outside the source file. It is the number of
  rows of \<open>gpu->ce_caps\<close> (the loop of \<open>pick_ce_for_channel_type\<close> reads that many),
  so the model takes it from the table.
\<close>

definition UVM_COPY_ENGINE_COUNT_MAX :: "UvmGpuCopyEngineCaps list \<Rightarrow> nat" where
  "UVM_COPY_ENGINE_COUNT_MAX ce_caps = length ce_caps"

text \<open>The kernel's \<open>hweight32\<close>: the number of bits set in a 32-bit word.\<close>

definition hweight32 :: "NvU32 \<Rightarrow> nat" where
  "hweight32 w = length (filter (bit w) [0..<32])"

text \<open>\<open>ce_usable_for_channel_type\<close> (lines 623 to 641).\<close>

fun ce_usable_for_channel_type :: "uvm_channel_type_t \<Rightarrow> UvmGpuCopyEngineCaps \<Rightarrow> bool" where
  "ce_usable_for_channel_type type cap =
     (if \<not> supported cap \<or> grce cap then False
      else case type of
             UVM_CHANNEL_TYPE_CPU_TO_GPU \<Rightarrow> sysmem cap
           | UVM_CHANNEL_TYPE_GPU_TO_CPU \<Rightarrow> sysmem cap
           | UVM_CHANNEL_TYPE_GPU_INTERNAL \<Rightarrow> True
           | UVM_CHANNEL_TYPE_MEMOPS \<Rightarrow> True
           | UVM_CHANNEL_TYPE_GPU_TO_GPU \<Rightarrow> p2p cap
           | UVM_CHANNEL_TYPE_ANY \<Rightarrow> False)"

text \<open>
  The default ordering at the end of \<open>compare_ce_for_channel_type\<close> (lines 730 to 739).
  The differences of the \<open>NvU32\<close> usage counts and indices wrap and are returned as
  \<open>int\<close>; the flags are promoted to \<open>int\<close> before they are subtracted.
\<close>

definition compare_ce_default ::
  "UvmGpuCopyEngineCaps list \<Rightarrow> nat \<Rightarrow> nat \<Rightarrow> NvU32 list \<Rightarrow> int" where
  "compare_ce_default ce_caps ce_index1 ce_index2 usage_count =
     (let cap1 = ce_caps ! ce_index1; cap2 = ce_caps ! ce_index2
      in if usage_count ! ce_index1 \<noteq> usage_count ! ce_index2
         then sint (usage_count ! ce_index1 - usage_count ! ce_index2)
         else if shared cap1 \<noteq> shared cap2
         then of_bool (shared cap1) - of_bool (shared cap2)
         else sint (word_of_nat ce_index1 - word_of_nat ce_index2 :: NvU32))"

text \<open>
  \<open>compare_ce_for_channel_type\<close> (lines 644 to 740): negative when the first engine is
  the better one. The caller passes indices below \<open>UVM_COPY_ENGINE_COUNT_MAX\<close> only.
\<close>

definition compare_ce_for_channel_type ::
  "UvmGpuCopyEngineCaps list \<Rightarrow> uvm_channel_type_t \<Rightarrow> nat \<Rightarrow> nat \<Rightarrow> NvU32 list \<Rightarrow> int" where
  "compare_ce_for_channel_type ce_caps type ce_index1 ce_index2 usage_count =
     (let cap1 = ce_caps ! ce_index1; cap2 = ce_caps ! ce_index2;
          pce_diff = int (hweight32 (cePceMask cap2)) - int (hweight32 (cePceMask cap1));
          by_default = compare_ce_default ce_caps ce_index1 ce_index2 usage_count
      in case type of
           UVM_CHANNEL_TYPE_CPU_TO_GPU \<Rightarrow>
             if sysmemRead cap1 \<noteq> sysmemRead cap2
             then of_bool (sysmemRead cap2) - of_bool (sysmemRead cap1)
             else if nvlinkP2p cap1 \<noteq> nvlinkP2p cap2
             then of_bool (nvlinkP2p cap1) - of_bool (nvlinkP2p cap2)
             else by_default
         | UVM_CHANNEL_TYPE_GPU_TO_CPU \<Rightarrow>
             if sysmemWrite cap1 \<noteq> sysmemWrite cap2
             then of_bool (sysmemWrite cap2) - of_bool (sysmemWrite cap1)
             else if nvlinkP2p cap1 \<noteq> nvlinkP2p cap2
             then of_bool (nvlinkP2p cap1) - of_bool (nvlinkP2p cap2)
             else by_default
         | UVM_CHANNEL_TYPE_GPU_TO_GPU \<Rightarrow>
             if nvlinkP2p cap1 \<noteq> nvlinkP2p cap2
             then of_bool (nvlinkP2p cap2) - of_bool (nvlinkP2p cap1)
             else if nvlinkP2p cap1 \<and> pce_diff \<noteq> 0 then pce_diff
             else by_default
         | UVM_CHANNEL_TYPE_GPU_INTERNAL \<Rightarrow>
             if pce_diff \<noteq> 0 then pce_diff
             else if nvlinkP2p cap1 \<noteq> nvlinkP2p cap2
             then of_bool (nvlinkP2p cap1) - of_bool (nvlinkP2p cap2)
             else by_default
         | UVM_CHANNEL_TYPE_MEMOPS \<Rightarrow> by_default
         | UVM_CHANNEL_TYPE_ANY \<Rightarrow> 0)"

text \<open>
  One round of the loop of \<open>pick_ce_for_channel_type\<close> (lines 748 to 760), on the local
  \<open>best_ce\<close>.
\<close>

definition pick_ce_round ::
  "UvmGpuCopyEngineCaps list \<Rightarrow> uvm_channel_type_t \<Rightarrow> NvU32 list \<Rightarrow> nat \<Rightarrow> nat \<Rightarrow> nat" where
  "pick_ce_round ce_caps type usage_count i best_ce =
     (if \<not> ce_usable_for_channel_type type (ce_caps ! i) then best_ce
      else if best_ce = UVM_COPY_ENGINE_COUNT_MAX ce_caps then i
      else if compare_ce_for_channel_type ce_caps type i best_ce usage_count < 0 then i
      else best_ce)"

text \<open>The value of \<open>best_ce\<close> when the loop ends.\<close>

definition pick_ce_best ::
  "UvmGpuCopyEngineCaps list \<Rightarrow> uvm_channel_type_t \<Rightarrow> NvU32 list \<Rightarrow> nat" where
  "pick_ce_best ce_caps type usage_count =
     fold (pick_ce_round ce_caps type usage_count)
       [0..<UVM_COPY_ENGINE_COUNT_MAX ce_caps] (UVM_COPY_ENGINE_COUNT_MAX ce_caps)"

text \<open>
  What \<open>pick_ce_for_channel_type\<close> works on: the local array \<open>usage_count\<close> of
  \<open>channel_manager_pick_copy_engines\<close>, which has \<open>UVM_COPY_ENGINE_COUNT_MAX\<close>
  elements, and \<open>manager->ce_to_use_by_type\<close>. C does not define a store outside the
  array; the model keeps the array as it is and records the index of such a store in
  \<open>stores_past_end\<close>.
\<close>

record ce_selection =
  usage_count :: "NvU32 list"
  ce_to_use_by_type :: "uvm_channel_type_t \<Rightarrow> nat"
  stores_past_end :: "nat list"

text \<open>\<open>pick_ce_for_channel_type\<close> (lines 742 to 764).\<close>

definition pick_ce_for_channel_type ::
  "UvmGpuCopyEngineCaps list \<Rightarrow> uvm_channel_type_t \<Rightarrow> ce_selection \<Rightarrow> ce_selection" where
  "pick_ce_for_channel_type ce_caps type sel =
     (let best_ce = pick_ce_best ce_caps type (usage_count sel);
          sel' = (if best_ce < length (usage_count sel)
                  then sel\<lparr>usage_count :=
                             (usage_count sel)[best_ce := usage_count sel ! best_ce + 1]\<rparr>
                  else sel\<lparr>stores_past_end := stores_past_end sel @ [best_ce]\<rparr>)
      in sel'\<lparr>ce_to_use_by_type := (ce_to_use_by_type sel')(type := best_ce)\<rparr>)"

text \<open>
  \<open>channel_manager_pick_copy_engines\<close> (lines 766 to 799): the status and the selection
  state when it returns.
\<close>

definition channel_manager_pick_copy_engines ::
  "UvmGpuCopyEngineCaps list \<Rightarrow> NV_STATUS \<times> ce_selection" where
  "channel_manager_pick_copy_engines ce_caps =
     (let sel0 = \<lparr>usage_count = replicate (UVM_COPY_ENGINE_COUNT_MAX ce_caps) 0,
                  ce_to_use_by_type = (\<lambda>type. UVM_COPY_ENGINE_COUNT_MAX ce_caps),
                  stores_past_end = []\<rparr>;
          sel1 = pick_ce_for_channel_type ce_caps UVM_CHANNEL_TYPE_CPU_TO_GPU sel0;
          sel2 = pick_ce_for_channel_type ce_caps UVM_CHANNEL_TYPE_GPU_TO_CPU sel1;
          sel3 = pick_ce_for_channel_type ce_caps UVM_CHANNEL_TYPE_GPU_INTERNAL sel2;
          sel4 = pick_ce_for_channel_type ce_caps UVM_CHANNEL_TYPE_GPU_TO_GPU sel3;
          sel5 = pick_ce_for_channel_type ce_caps UVM_CHANNEL_TYPE_MEMOPS sel4
      in (if list_ex (\<lambda>type. type \<noteq> UVM_CHANNEL_TYPE_ANY
                               \<and> ce_to_use_by_type sel5 type
                                    = UVM_COPY_ENGINE_COUNT_MAX ce_caps)
               channel_types
          then NV_ERR_NOT_SUPPORTED else NV_OK,
          sel5))"



section \<open>Vocabulary for stating the engine selection\<close>

text \<open>
  The definitions of this section are not in the source. A comparator chain gives every
  engine a list of ranks, one per stage, smaller being better; two engines are compared
  stage by stage until one stage discriminates, which is the lexicographic order on the
  lists. \<open>primary_stage\<close> is the type-specific metric at the head of the chain: fast
  system-memory reads for CPU_TO_GPU, fast system-memory writes for GPU_TO_CPU, the number of
  physical copy engines for GPU_INTERNAL, NVLINK peer capability and then, among NVLINK
  engines, the number of physical copy engines for GPU_TO_GPU, and nothing for MEMOPS.
\<close>

definition flag_rank :: "bool \<Rightarrow> nat" where
  "flag_rank b = (if b then 1 else 0)"

definition primary_stage :: "uvm_channel_type_t \<Rightarrow> UvmGpuCopyEngineCaps \<Rightarrow> nat list" where
  "primary_stage type cap =
     (case type of
        UVM_CHANNEL_TYPE_CPU_TO_GPU \<Rightarrow> [flag_rank (\<not> sysmemRead cap)]
      | UVM_CHANNEL_TYPE_GPU_TO_CPU \<Rightarrow> [flag_rank (\<not> sysmemWrite cap)]
      | UVM_CHANNEL_TYPE_GPU_INTERNAL \<Rightarrow> [32 - hweight32 (cePceMask cap)]
      | UVM_CHANNEL_TYPE_GPU_TO_GPU \<Rightarrow>
          [flag_rank (\<not> nvlinkP2p cap),
           if nvlinkP2p cap then 32 - hweight32 (cePceMask cap) else 0]
      | UVM_CHANNEL_TYPE_MEMOPS \<Rightarrow> []
      | UVM_CHANNEL_TYPE_ANY \<Rightarrow> [])"

text \<open>The preference against peer-capable engines, and the last three stages.\<close>

definition peer_stage :: "UvmGpuCopyEngineCaps \<Rightarrow> nat list" where
  "peer_stage cap = [flag_rank (nvlinkP2p cap)]"

definition default_stages :: "UvmGpuCopyEngineCaps list \<Rightarrow> NvU32 list \<Rightarrow> nat \<Rightarrow> nat list" where
  "default_stages ce_caps usage i = [unat (usage ! i), flag_rank (shared (ce_caps ! i)), i]"

text \<open>
  The chain as the specification words it, the same five stages for every type: primary
  metric, preference against peer-capable engines, usage count, non-shared, lowest index.
\<close>

definition claimed_stages ::
  "uvm_channel_type_t \<Rightarrow> UvmGpuCopyEngineCaps list \<Rightarrow> NvU32 list \<Rightarrow> nat \<Rightarrow> nat list" where
  "claimed_stages type ce_caps usage i =
     primary_stage type (ce_caps ! i) @ peer_stage (ce_caps ! i) @ default_stages ce_caps usage i"

text \<open>
  The chain with the preference against peer-capable engines only for CPU_TO_GPU,
  GPU_TO_CPU and GPU_INTERNAL.
\<close>

definition comparator_stages ::
  "uvm_channel_type_t \<Rightarrow> UvmGpuCopyEngineCaps list \<Rightarrow> NvU32 list \<Rightarrow> nat \<Rightarrow> nat list" where
  "comparator_stages type ce_caps usage i =
     primary_stage type (ce_caps ! i)
     @ (if type \<in> {UVM_CHANNEL_TYPE_CPU_TO_GPU, UVM_CHANNEL_TYPE_GPU_TO_CPU,
                    UVM_CHANNEL_TYPE_GPU_INTERNAL}
        then peer_stage (ce_caps ! i) else [])
     @ default_stages ce_caps usage i"

text \<open>
  The engines eligible for a type, the winner of a chain among them, and the selection that
  processes the types in the fixed order, each pick raising the usage count of its winner.
\<close>

definition eligible_engines :: "UvmGpuCopyEngineCaps list \<Rightarrow> uvm_channel_type_t \<Rightarrow> nat list" where
  "eligible_engines ce_caps type =
     filter (\<lambda>i. ce_usable_for_channel_type type (ce_caps ! i)) [0..<length ce_caps]"

definition is_winner :: "(nat \<Rightarrow> nat list) \<Rightarrow> nat list \<Rightarrow> nat \<Rightarrow> bool" where
  "is_winner stages eligible w \<longleftrightarrow>
     w \<in> set eligible \<and> (\<forall>j \<in> set eligible. j \<noteq> w \<longrightarrow> stages w < stages j)"

definition chain_winner :: "(nat \<Rightarrow> nat list) \<Rightarrow> nat list \<Rightarrow> nat \<Rightarrow> nat" where
  "chain_winner stages eligible none =
     (if eligible = [] then none else arg_min_list stages eligible)"

definition selection_order :: "uvm_channel_type_t list" where
  "selection_order =
     [UVM_CHANNEL_TYPE_CPU_TO_GPU, UVM_CHANNEL_TYPE_GPU_TO_CPU, UVM_CHANNEL_TYPE_GPU_INTERNAL,
      UVM_CHANNEL_TYPE_GPU_TO_GPU, UVM_CHANNEL_TYPE_MEMOPS]"

fun select_by_chain ::
  "(uvm_channel_type_t \<Rightarrow> UvmGpuCopyEngineCaps list \<Rightarrow> NvU32 list \<Rightarrow> nat \<Rightarrow> nat list)
     \<Rightarrow> UvmGpuCopyEngineCaps list \<Rightarrow> uvm_channel_type_t list \<Rightarrow> NvU32 list
     \<Rightarrow> (uvm_channel_type_t \<Rightarrow> nat) \<Rightarrow> (uvm_channel_type_t \<Rightarrow> nat)" where
  "select_by_chain chain ce_caps [] usage assignment = assignment"
| "select_by_chain chain ce_caps (type # types) usage assignment =
     (let w = chain_winner (chain type ce_caps usage) (eligible_engines ce_caps type)
                (length ce_caps)
      in select_by_chain chain ce_caps types
           (if w < length usage then usage[w := usage ! w + 1] else usage)
           (assignment(type := w)))"

definition chain_selection ::
  "(uvm_channel_type_t \<Rightarrow> UvmGpuCopyEngineCaps list \<Rightarrow> NvU32 list \<Rightarrow> nat \<Rightarrow> nat list)
     \<Rightarrow> UvmGpuCopyEngineCaps list \<Rightarrow> (uvm_channel_type_t \<Rightarrow> nat)" where
  "chain_selection chain ce_caps =
     select_by_chain chain ce_caps selection_order (replicate (length ce_caps) 0)
       (\<lambda>type. length ce_caps)"

text \<open>
  The loop of \<open>pick_ce_for_channel_type\<close> restricted to the eligible engines, for the
  proofs; and a capability table of two engines used in examples: both reach system memory,
  the first alone is NVLINK and peer capable.
\<close>

definition scan_round ::
  "UvmGpuCopyEngineCaps list \<Rightarrow> uvm_channel_type_t \<Rightarrow> NvU32 list \<Rightarrow> nat \<Rightarrow> nat \<Rightarrow> nat" where
  "scan_round ce_caps type usage i best =
     (if best = length ce_caps then i
      else if compare_ce_for_channel_type ce_caps type i best usage < 0 then i else best)"

definition example_ce_caps :: "UvmGpuCopyEngineCaps list" where
  "example_ce_caps =
     [\<lparr>supported = True, grce = False, shared = False, sysmemRead = True,
       sysmemWrite = True, sysmem = True, nvlinkP2p = True, p2p = True, cePceMask = 1\<rparr>,
      \<lparr>supported = True, grce = False, shared = False, sysmemRead = True,
       sysmemWrite = True, sysmem = True, nvlinkP2p = False, p2p = False, cePceMask = 2\<rparr>]"

section \<open>Fatal status, error checks and waiting for a slot\<close>

text \<open>
  Modelled from the spec: \<open>uvm_global_get_status\<close> and \<open>uvm_global_set_fatal_error\<close>
  are defined outside the source file. The specification describes a single shared state
  cell with set-once-wins semantics, polled by the health checks; the cell holds
  \<open>NV_OK\<close> while no fatal status exists.
\<close>

definition uvm_global_get_status :: "NV_STATUS \<Rightarrow> NV_STATUS" where
  "uvm_global_get_status fatal_error = fatal_error"

definition uvm_global_set_fatal_error :: "NV_STATUS \<Rightarrow> NV_STATUS \<Rightarrow> NV_STATUS" where
  "uvm_global_set_fatal_error fatal_error error =
     (if fatal_error = NV_OK then error else fatal_error)"

text \<open>
  \<open>uvm_channel_get_first_pending_entry\<close> (lines 336 to 352): the index of the entry it
  returns, \<open>None\<close> for the null pointer, and the channel after the reclamation it runs.
\<close>

definition uvm_channel_get_first_pending_entry ::
  "uvm_channel_t \<Rightarrow> NvU64 \<Rightarrow> fault + (NvU32 option \<times> uvm_channel_t)" where
  "uvm_channel_get_first_pending_entry channel completed_value =
     (case channel_update_progress_all channel completed_value
             UVM_CHANNEL_UPDATE_MODE_COMPLETED of
        Inl f \<Rightarrow> Inl f
      | Inr (pending_gpfifos, channel') \<Rightarrow>
          if pending_gpfifos = 0 then Inr (None, channel')
          else if gpu_get channel' \<noteq> cpu_put channel'
          then Inr (Some (gpu_get channel'), channel')
          else Inr (None, channel'))"

text \<open>
  \<open>uvm_channel_check_errors\<close> with \<open>uvm_channel_get_fatal_entry\<close> (lines 374 to 400):
  the status, the channel and the global fatal status after the call. The message about the
  fatal entry reads the entry and its metadata slot; the text printed is not modelled.
\<close>

definition uvm_channel_check_errors ::
  "uvm_channel_t \<Rightarrow> uvm_gpu_ecc_t \<Rightarrow> NV_STATUS \<Rightarrow> NvU64
     \<Rightarrow> fault + (NV_STATUS \<times> uvm_channel_t \<times> NV_STATUS)" where
  "uvm_channel_check_errors channel ecc fatal_error completed_value =
     (let status = uvm_channel_get_status channel ecc
      in if status = NV_OK then Inr (NV_OK, channel, fatal_error)
         else case uvm_channel_get_first_pending_entry channel completed_value of
                Inl f \<Rightarrow> Inl f
              | Inr (fatal_entry, channel') \<Rightarrow>
                  (case fatal_entry of
                     None \<Rightarrow>
                       Inr (status, channel', uvm_global_set_fatal_error fatal_error status)
                   | Some index \<Rightarrow>
                       if \<not> unat index < length (gpfifo_entries channel') then Inl OutOfBounds
                       else if push_info (gpfifo_entries channel' ! unat index) = None
                       then Inl NullDereference
                       else Inr (status, channel',
                                 uvm_global_set_fatal_error fatal_error status)))"

text \<open>
  The loop of \<open>uvm_channel_manager_check_errors\<close> over \<open>all_channels_list\<close> (lines 410
  to 414). \<open>completed\<close> gives the completed value the tracking counter of the \<open>i\<close>-th
  channel shows.
\<close>

fun check_errors_each ::
  "(nat \<Rightarrow> NvU64) \<Rightarrow> uvm_gpu_ecc_t \<Rightarrow> nat \<Rightarrow> uvm_channel_t list \<Rightarrow> NV_STATUS
     \<Rightarrow> fault + (NV_STATUS \<times> uvm_channel_t list \<times> NV_STATUS)" where
  "check_errors_each completed ecc i [] fatal_error = Inr (NV_OK, [], fatal_error)"
| "check_errors_each completed ecc i (channel # channels) fatal_error =
     (case uvm_channel_check_errors channel ecc fatal_error (completed i) of
        Inl f \<Rightarrow> Inl f
      | Inr (status, channel', fatal_error') \<Rightarrow>
          if status \<noteq> NV_OK then Inr (status, channel' # channels, fatal_error')
          else case check_errors_each completed ecc (Suc i) channels fatal_error' of
                 Inl f \<Rightarrow> Inl f
               | Inr (status', channels', fatal_error'') \<Rightarrow>
                   Inr (status', channel' # channels', fatal_error''))"

text \<open>\<open>uvm_channel_manager_check_errors\<close> (lines 402 to 417).\<close>

definition uvm_channel_manager_check_errors ::
  "uvm_channel_t list \<Rightarrow> uvm_gpu_ecc_t \<Rightarrow> NV_STATUS \<Rightarrow> (nat \<Rightarrow> NvU64)
     \<Rightarrow> fault + (NV_STATUS \<times> uvm_channel_t list \<times> NV_STATUS)" where
  "uvm_channel_manager_check_errors all_channels ecc fatal_error completed =
     (if uvm_global_get_status fatal_error \<noteq> NV_OK
      then Inr (uvm_global_get_status fatal_error, all_channels, fatal_error)
      else check_errors_each completed ecc 0 all_channels fatal_error)"

text \<open>
  The device acts on its own while a caller waits. The waiting loops see it through one
  observation per round: the completed value of the tracking counter, the status field of
  the fault notifier and the ECC state. A loop that has used up the observations it was
  given without returning is still waiting: the result is \<open>None\<close>.
\<close>

record device_observation =
  obs_completed :: NvU64
  obs_notifier :: NvU16
  obs_ecc :: uvm_gpu_ecc_t

definition observe :: "device_observation \<Rightarrow> uvm_channel_t \<Rightarrow> uvm_channel_t" where
  "observe obs channel = channel\<lparr>errorNotifier_status := obs_notifier obs\<rparr>"

text \<open>
  The loop of \<open>uvm_channel_reserve\<close> (lines 325 to 329). The condition calls
  \<open>try_claim_channel\<close> first and tests \<open>status\<close> only when the claim failed.
\<close>

fun reserve_wait ::
  "device_observation list \<Rightarrow> uvm_channel_t \<Rightarrow> NV_STATUS \<Rightarrow> NV_STATUS
     \<Rightarrow> (fault + (NV_STATUS \<times> uvm_channel_t \<times> NV_STATUS)) option" where
  "reserve_wait observations channel fatal_error status =
     (case try_claim_channel channel of
        Inl f \<Rightarrow> Some (Inl f)
      | Inr (claimed, channel1) \<Rightarrow>
          if claimed \<or> status \<noteq> NV_OK then Some (Inr (status, channel1, fatal_error))
          else case observations of
                 [] \<Rightarrow> None
               | obs # rest \<Rightarrow>
                   (case uvm_channel_check_errors (observe obs channel1) (obs_ecc obs)
                           fatal_error (obs_completed obs) of
                      Inl f \<Rightarrow> Some (Inl f)
                    | Inr (status', channel2, fatal_error') \<Rightarrow>
                        (case uvm_channel_update_progress channel2 (obs_completed obs) of
                           Inl f \<Rightarrow> Some (Inl f)
                         | Inr (pending, channel3) \<Rightarrow>
                             reserve_wait rest channel3 fatal_error' status')))"

text \<open>
  \<open>uvm_channel_reserve\<close> (lines 314 to 332). The first observation serves the
  reclamation before the loop.
\<close>

definition uvm_channel_reserve ::
  "uvm_channel_t \<Rightarrow> NV_STATUS \<Rightarrow> device_observation list
     \<Rightarrow> (fault + (NV_STATUS \<times> uvm_channel_t \<times> NV_STATUS)) option" where
  "uvm_channel_reserve channel fatal_error observations =
     (case try_claim_channel channel of
        Inl f \<Rightarrow> Some (Inl f)
      | Inr (claimed, channel1) \<Rightarrow>
          if claimed then Some (Inr (NV_OK, channel1, fatal_error))
          else case observations of
                 [] \<Rightarrow> None
               | obs # rest \<Rightarrow>
                   (case uvm_channel_update_progress (observe obs channel1)
                           (obs_completed obs) of
                      Inl f \<Rightarrow> Some (Inl f)
                    | Inr (pending, channel2) \<Rightarrow>
                        reserve_wait rest channel2 fatal_error NV_OK))"

text \<open>
  The first loop of \<open>uvm_channel_reserve_type\<close> (lines 159 to 165) over the channels of
  the pool: the position of the channel claimed, if any, and the pool after the attempts.
\<close>

fun reserve_type_scan ::
  "uvm_channel_t list \<Rightarrow> fault + (nat option \<times> uvm_channel_t list)" where
  "reserve_type_scan [] = Inr (None, [])"
| "reserve_type_scan (channel # channels) =
     (case try_claim_channel channel of
        Inl f \<Rightarrow> Inl f
      | Inr (claimed, channel') \<Rightarrow>
          if claimed then Inr (Some 0, channel' # channels)
          else case reserve_type_scan channels of
                 Inl f \<Rightarrow> Inl f
               | Inr (found, channels') \<Rightarrow> Inr (map_option Suc found, channel' # channels'))"

text \<open>
  The second loop (lines 168 to 183), one observation per visit of a channel; \<open>i\<close> is the
  position of the channel visited. The result is the status, the position stored through
  \<open>channel_out\<close> when a claim succeeded, the pool and the global fatal status.
\<close>

fun reserve_type_wait ::
  "device_observation list \<Rightarrow> nat \<Rightarrow> uvm_channel_t list \<Rightarrow> NV_STATUS
     \<Rightarrow> (fault + (NV_STATUS \<times> nat option \<times> uvm_channel_t list \<times> NV_STATUS)) option" where
  "reserve_type_wait [] i channels fatal_error = None"
| "reserve_type_wait (obs # rest) i channels fatal_error =
     (if channels = [] then None
      else case uvm_channel_update_progress (observe obs (channels ! i)) (obs_completed obs) of
        Inl f \<Rightarrow> Some (Inl f)
      | Inr (pending, channel1) \<Rightarrow>
          (case try_claim_channel channel1 of
             Inl f \<Rightarrow> Some (Inl f)
           | Inr (claimed, channel2) \<Rightarrow>
               if claimed
               then Some (Inr (NV_OK, Some i, channels[i := channel2], fatal_error))
               else case uvm_channel_check_errors channel2 (obs_ecc obs) fatal_error
                           (obs_completed obs) of
                      Inl f \<Rightarrow> Some (Inl f)
                    | Inr (status, channel3, fatal_error') \<Rightarrow>
                        if status \<noteq> NV_OK
                        then Some (Inr (status, None, channels[i := channel3], fatal_error'))
                        else reserve_type_wait rest (Suc i mod length channels)
                               (channels[i := channel3]) fatal_error'))"

text \<open>\<open>uvm_channel_reserve_type\<close> (lines 153 to 187), on the channels of the pool.\<close>

definition uvm_channel_reserve_type ::
  "uvm_channel_t list \<Rightarrow> NV_STATUS \<Rightarrow> device_observation list
     \<Rightarrow> (fault + (NV_STATUS \<times> nat option \<times> uvm_channel_t list \<times> NV_STATUS)) option" where
  "uvm_channel_reserve_type channels fatal_error observations =
     (case reserve_type_scan channels of
        Inl f \<Rightarrow> Some (Inl f)
      | Inr (found, channels') \<Rightarrow>
          (case found of
             Some i \<Rightarrow> Some (Inr (NV_OK, Some i, channels', fatal_error))
           | None \<Rightarrow> reserve_type_wait observations 0 channels' fatal_error))"

declare reserve_wait.simps [simp del]

section \<open>Properties of the claim step\<close>

text \<open>
  C1. On a ring of capacity \<open>N \<noteq> 0\<close> a claim attempt returns, and it succeeds exactly when
  \<open>(cpu_put + current_pushes_count + 1) mod N \<noteq> gpu_get\<close>. On success the only change is
  \<open>current_pushes_count\<close>, which grows by one: \<open>cpu_put\<close>, \<open>gpu_get\<close>, the ring
  entries and every other field are as before. On failure the channel is unchanged. The
  arithmetic is that of \<open>NvU32\<close>; the last two conjuncts read it on natural numbers
  where the sums do not wrap.
\<close>

theorem try_claim_channel_iff:
  assumes "numGpFifoEntries c \<noteq> 0"
  shows "\<exists>claimed c'. try_claim_channel c = Inr (claimed, c')
           \<and> (claimed \<longleftrightarrow>
                (cpu_put c + current_pushes_count c + 1) mod numGpFifoEntries c \<noteq> gpu_get c)
           \<and> (claimed \<longrightarrow>
                c' = c\<lparr>current_pushes_count := current_pushes_count c + 1\<rparr>
                \<and> cpu_put c' = cpu_put c \<and> gpu_get c' = gpu_get c
                \<and> gpfifo_entries c' = gpfifo_entries c)
           \<and> (\<not> claimed \<longrightarrow> c' = c)
           \<and> (unat (cpu_put c) + unat (current_pushes_count c) + 1 < 2 ^ 32 \<longrightarrow>
                (claimed \<longleftrightarrow>
                   (unat (cpu_put c) + unat (current_pushes_count c) + 1)
                      mod unat (numGpFifoEntries c) \<noteq> unat (gpu_get c))
                \<and> (claimed \<longrightarrow>
                      unat (current_pushes_count c') = unat (current_pushes_count c) + 1))"
proof -
  let ?np = "(cpu_put c + current_pushes_count c + 1) mod numGpFifoEntries c"
  let ?c' = "if ?np \<noteq> gpu_get c
             then c\<lparr>current_pushes_count := current_pushes_count c + 1\<rparr> else c"
  have run: "try_claim_channel c = Inr (?np \<noteq> gpu_get c, ?c')"
    using assms by (simp add: try_claim_channel_def is_channel_available_def Let_def)
  have nat_reading:
    "unat ?np = (unat (cpu_put c) + unat (current_pushes_count c) + 1)
                  mod unat (numGpFifoEntries c)"
    and count_up: "unat (current_pushes_count c + 1) = unat (current_pushes_count c) + 1"
    if nowrap: "unat (cpu_put c) + unat (current_pushes_count c) + 1 < 2 ^ 32"
  proof -
    have "unat (cpu_put c + current_pushes_count c + 1)
            = unat (cpu_put c) + unat (current_pushes_count c) + 1"
      using nowrap by (simp add: unat_word_ariths)
    then show "unat ?np = (unat (cpu_put c) + unat (current_pushes_count c) + 1)
                  mod unat (numGpFifoEntries c)"
      by (simp add: unat_mod)
    show "unat (current_pushes_count c + 1) = unat (current_pushes_count c) + 1"
      using nowrap by (simp add: unat_word_ariths)
  qed
  have word_reading: "(?np \<noteq> gpu_get c) \<longleftrightarrow>
      (unat (cpu_put c) + unat (current_pushes_count c) + 1)
         mod unat (numGpFifoEntries c) \<noteq> unat (gpu_get c)"
    if "unat (cpu_put c) + unat (current_pushes_count c) + 1 < 2 ^ 32"
    using nat_reading [OF that] by (simp add: word_unat_eq_iff)
  have fields: "cpu_put ?c' = cpu_put c" "gpu_get ?c' = gpu_get c"
    "gpfifo_entries ?c' = gpfifo_entries c"
    by simp_all
  have succ: "?np \<noteq> gpu_get c \<Longrightarrow>
      ?c' = c\<lparr>current_pushes_count := current_pushes_count c + 1\<rparr>"
    and fail: "\<not> ?np \<noteq> gpu_get c \<Longrightarrow> ?c' = c"
    by simp_all
  have cnt: "unat (current_pushes_count ?c') = unat (current_pushes_count c) + 1"
    if "unat (cpu_put c) + unat (current_pushes_count c) + 1 < 2 ^ 32" "?np \<noteq> gpu_get c"
    using count_up [OF that(1)] that(2) by simp
  show ?thesis
    using run word_reading fields succ fail cnt by blast
qed

theorem try_claim_channel_iff_witness:
  "\<exists>claimed c'.
     try_claim_channel ((created_channel 4)\<lparr>cpu_put := 1, current_pushes_count := 1\<rparr>)
       = Inr (claimed, c')
     \<and> claimed \<and> current_pushes_count c' = 2 \<and> cpu_put c' = 1 \<and> gpu_get c' = 0"
  using try_claim_channel_iff
     [of "(created_channel 4)\<lparr>cpu_put := 1, current_pushes_count := 1\<rparr>"]
  by (auto simp: created_channel_def)

section \<open>Ring arithmetic and the reclamation loop in closed form\<close>

lemma ring_dist_self: "g < N \<Longrightarrow> ring_dist N g g = 0"
  by (simp add: ring_dist_def)

lemma ring_dist_zero_iff: "g < N \<Longrightarrow> p < N \<Longrightarrow> ring_dist N g p = 0 \<longleftrightarrow> g = p"
  by (auto simp: ring_dist_def mod_if split: if_splits)

lemma ring_dist_step:
  assumes "g < N" "p < N" "g \<noteq> p"
  shows "ring_dist N ((g + 1) mod N) p = ring_dist N g p - 1"
  using assms by (auto simp: ring_dist_def mod_if split: if_splits)

lemma ring_dist_less: "g < N \<Longrightarrow> p < N \<Longrightarrow> ring_dist N g p < N"
  by (simp add: ring_dist_def)

lemma ring_slice_Suc:
  "g < N \<Longrightarrow> ring_slice es N g (Suc k) = es ! g # ring_slice es N ((g + 1) mod N) k"
  unfolding ring_slice_def
  by (simp only: map_upt_Suc) (simp add: mod_add_left_eq)

lemma unat_succ_mod:
  fixes g N :: NvU32
  assumes "g < N"
  shows "unat ((g + 1) mod N) = (unat g + 1) mod unat N"
proof -
  have "unat g < unat N" using assms by (simp add: word_less_nat_alt)
  moreover have "unat N < 2 ^ 32" using unsigned_less [of N, where 'a = nat] by simp
  ultimately have "unat (g + 1) = unat g + 1" by (simp add: unat_word_ariths)
  then show ?thesis by (simp add: unat_mod)
qed

lemma retire_count_Nil [simp]: "retire_count mode cv b [] = 0"
  by (simp add: retire_count_def split: uvm_channel_update_mode_t.split)

lemma retire_count_zero [simp]: "retire_count mode cv 0 pend = 0"
  by (simp add: retire_count_def)

lemma retire_count_stop:
  "tracking_semaphore_value e > cv \<Longrightarrow>
   retire_count UVM_CHANNEL_UPDATE_MODE_COMPLETED cv b (e # pend) = 0"
  by (auto simp: retire_count_def)

lemma retire_count_go:
  "mode = UVM_CHANNEL_UPDATE_MODE_COMPLETED \<longrightarrow> \<not> tracking_semaphore_value e > cv \<Longrightarrow>
   retire_count mode cv (Suc b) (e # pend) = Suc (retire_count mode cv b pend)"
  by (cases mode) (auto simp: retire_count_def)

lemma update_progress_loop_done:
  "g = p \<or> \<not> cc < mx \<Longrightarrow> update_progress_loop ch cv mx mode p g cc = Inr (ch, g, cc)"
  by (subst update_progress_loop.simps) auto

lemma update_progress_loop_stop:
  "unat g < length (gpfifo_entries ch) \<Longrightarrow>
   mode = UVM_CHANNEL_UPDATE_MODE_COMPLETED
     \<and> tracking_semaphore_value (gpfifo_entries ch ! unat g) > cv \<Longrightarrow>
   update_progress_loop ch cv mx mode p g cc = Inr (ch, g, cc)"
  by (subst update_progress_loop.simps) auto

lemma update_progress_loop_step:
  "g \<noteq> p \<Longrightarrow> cc < mx \<Longrightarrow> unat g < length (gpfifo_entries ch) \<Longrightarrow>
   \<not> (mode = UVM_CHANNEL_UPDATE_MODE_COMPLETED
       \<and> tracking_semaphore_value (gpfifo_entries ch ! unat g) > cv) \<Longrightarrow>
   push_info (gpfifo_entries ch ! unat g) \<noteq> None \<Longrightarrow> numGpFifoEntries ch \<noteq> 0 \<Longrightarrow>
   update_progress_loop ch cv mx mode p g cc =
     update_progress_loop
       (ch\<lparr>pushbuffer_completed := pushbuffer_completed ch @ [gpfifo_entries ch ! unat g],
           available_push_infos :=
             available_push_infos ch @ [the (push_info (gpfifo_entries ch ! unat g))]\<rparr>)
       cv mx mode p ((g + 1) mod numGpFifoEntries ch) (cc + 1)"
  by (subst update_progress_loop.simps) auto

lemma update_progress_loop_closed:
  fixes ch :: uvm_channel_t
  assumes N: "numGpFifoEntries ch \<noteq> 0"
    and len: "length (gpfifo_entries ch) = unat (numGpFifoEntries ch)"
    and p: "p < numGpFifoEntries ch" and g: "g < numGpFifoEntries ch"
    and cc: "cc \<le> mx"
    and pend: "pend = ring_slice (gpfifo_entries ch) (unat (numGpFifoEntries ch)) (unat g)
                        (ring_dist (unat (numGpFifoEntries ch)) (unat g) (unat p))"
    and infos: "\<forall>e \<in> set pend. push_info e \<noteq> None"
    and r: "r = retire_count mode cv (unat mx - unat cc) pend"
  shows "update_progress_loop ch cv mx mode p g cc =
           Inr (ch\<lparr>pushbuffer_completed := pushbuffer_completed ch @ take r pend,
                   available_push_infos :=
                     available_push_infos ch @ map (\<lambda>e. the (push_info e)) (take r pend)\<rparr>,
                word_of_nat ((unat g + r) mod unat (numGpFifoEntries ch)),
                cc + word_of_nat r)"
  using assms
proof (induction "ring_dist (unat (numGpFifoEntries ch)) (unat g) (unat p)"
         arbitrary: ch g cc pend r)
  case 0
  have gN: "unat g < unat (numGpFifoEntries ch)" and pN: "unat p < unat (numGpFifoEntries ch)"
    using "0.prems" by (simp_all add: word_less_nat_alt)
  from "0.hyps" gN pN have "unat g = unat p" by (simp add: ring_dist_zero_iff)
  then have "g = p" by (simp add: word_unat_eq_iff)
  moreover have "pend = []" using "0.prems" "0.hyps" by (simp add: ring_slice_def)
  ultimately show ?case
    using "0.prems" gN by (simp add: update_progress_loop_done)
next
  case (Suc d)
  let ?N = "numGpFifoEntries ch"
  let ?es = "gpfifo_entries ch"
  have gN: "unat g < unat ?N" and pN: "unat p < unat ?N"
    using Suc.prems by (simp_all add: word_less_nat_alt)
  have neq: "g \<noteq> p"
    using Suc.hyps(2) gN by (auto simp: ring_dist_self)
  then have uneq: "unat g \<noteq> unat p" by (simp add: word_unat_eq_iff)
  let ?e = "?es ! unat g"
  let ?g' = "(g + 1) mod ?N"
  have ug': "unat ?g' = (unat g + 1) mod unat ?N"
    using Suc.prems by (simp add: unat_succ_mod)
  have d': "ring_dist (unat ?N) (unat ?g') (unat p) = d"
    using Suc.hyps(2) ring_dist_step [OF gN pN uneq] by (simp add: ug')
  define pend' where "pend' = ring_slice ?es (unat ?N) (unat ?g') d"
  have pend_eq: "pend = ?e # pend'"
    using Suc.prems(6) Suc.hyps(2) [symmetric] ring_slice_Suc [OF gN, of ?es d]
    by (simp add: pend'_def ug')
  show ?case
  proof (cases "cc < mx")
    case False
    with Suc.prems have "cc = mx" by simp
    then have "r = 0" using Suc.prems by simp
    with False gN show ?thesis
      by (simp add: update_progress_loop_done)
  next
    case True
    then have lt: "unat cc < unat mx" by (simp add: word_less_nat_alt)
    have mxb: "unat mx < 2 ^ 32" using unsigned_less [of mx, where 'a = nat] by simp
    have ucc: "unat (cc + 1) = unat cc + 1" using lt mxb by (simp add: unat_word_ariths)
    have budget: "unat mx - unat cc = Suc (unat mx - unat (cc + 1))" using lt ucc by simp
    show ?thesis
    proof (cases "mode = UVM_CHANNEL_UPDATE_MODE_COMPLETED \<and> tracking_semaphore_value ?e > cv")
      case stop: True
      then have "r = 0" using Suc.prems(8) pend_eq by (simp add: retire_count_stop)
      with stop gN Suc.prems(2) show ?thesis
        by (simp add: update_progress_loop_stop)
    next
      case go: False
      let ?ch' = "ch\<lparr>pushbuffer_completed := pushbuffer_completed ch @ [?e],
                      available_push_infos := available_push_infos ch @ [the (push_info ?e)]\<rparr>"
      define r' where "r' = retire_count mode cv (unat mx - unat (cc + 1)) pend'"
      have r_eq: "r = Suc r'"
        using Suc.prems(8) pend_eq go budget retire_count_go [where mode = mode and e = ?e and cv = cv and pend = pend']
        by (auto simp: r'_def)
      have info: "push_info ?e \<noteq> None" using Suc.prems(7) pend_eq by simp
      have cc': "cc + 1 \<le> mx" using lt ucc by (simp add: word_le_nat_alt)
      have g'N: "?g' < ?N" using Suc.prems(1) by (simp add: word_mod_less_divisor word_neq_0_conv)
      have IH: "update_progress_loop ?ch' cv mx mode p ?g' (cc + 1) =
           Inr (?ch'\<lparr>pushbuffer_completed := pushbuffer_completed ?ch' @ take r' pend',
                   available_push_infos :=
                     available_push_infos ?ch' @ map (\<lambda>e. the (push_info e)) (take r' pend')\<rparr>,
                word_of_nat ((unat ?g' + r') mod unat (numGpFifoEntries ?ch')),
                (cc + 1) + word_of_nat r')"
        apply (rule Suc.hyps(1))
        using d' Suc.prems(1,2,3) g'N cc' Suc.prems(7) pend_eq
        by (simp_all add: pend'_def r'_def)
      have step: "update_progress_loop ch cv mx mode p g cc =
                  update_progress_loop ?ch' cv mx mode p ?g' (cc + 1)"
        using True neq gN Suc.prems(1,2) go info
        by (intro update_progress_loop_step) auto
      have idx: "((unat g + 1) mod unat ?N + r') mod unat ?N = (unat g + Suc r') mod unat ?N"
        by (simp add: mod_add_left_eq)
      show ?thesis
        unfolding step IH r_eq
        by (simp add: pend_eq ug' mod_simps)
    qed
  qed
qed

lemma ring_dist_advance:
  "g < N \<Longrightarrow> p < N \<Longrightarrow> r \<le> ring_dist N g p \<Longrightarrow>
   ring_dist N ((g + r) mod N) p = ring_dist N g p - r"
proof (induction r)
  case 0
  then show ?case by simp
next
  case (Suc r)
  then have IH: "ring_dist N ((g + r) mod N) p = ring_dist N g p - r" by simp
  have lt: "(g + r) mod N < N" using Suc.prems by simp
  have "ring_dist N ((g + r) mod N) p \<noteq> 0" using IH Suc.prems by simp
  then have "(g + r) mod N \<noteq> p" using lt by (auto simp: ring_dist_self)
  from ring_dist_step [OF lt Suc.prems(2) this] IH
  show ?case by (simp add: mod_simps)
qed

lemma ring_slice_drop:
  "r \<le> d \<Longrightarrow> ring_slice es N ((g + r) mod N) (d - r) = drop r (ring_slice es N g d)"
proof (rule nth_equalityI)
  show "length (ring_slice es N ((g + r) mod N) (d - r)) = length (drop r (ring_slice es N g d))"
    by (simp add: ring_slice_def)
next
  fix i
  assume "i < length (ring_slice es N ((g + r) mod N) (d - r))"
  then have i: "i < d - r" by (simp add: ring_slice_def)
  then have "r + i < d" by simp
  then have "[0..<d] ! (r + i) = r + i" by (metis add_0 nth_upt)
  with i show "ring_slice es N ((g + r) mod N) (d - r) ! i = drop r (ring_slice es N g d) ! i"
    by (simp add: ring_slice_def mod_simps ac_simps)
qed

lemma length_ring_slice [simp]: "length (ring_slice es N g k) = k"
  by (simp add: ring_slice_def)

lemma retire_count_le: "retire_count mode cv b pend \<le> length pend"
  by (cases mode) (auto simp: retire_count_def intro: le_trans [OF min.cobounded2] length_takeWhile_le)


lemma pending_word:
  fixes g p N :: NvU32
  assumes "g < N" "p < N"
  shows "unat (if g \<le> p then p - g else N - g + p) = ring_dist (unat N) (unat g) (unat p)"
proof -
  have gN: "unat g < unat N" and pN: "unat p < unat N"
    using assms by (simp_all add: word_less_nat_alt)
  have Nb: "unat N < 2 ^ 32" using unsigned_less [of N, where 'a = nat] by simp
  show ?thesis
  proof (cases "g \<le> p")
    case True
    then have le: "unat g \<le> unat p" by (simp add: word_le_nat_alt)
    have "unat (p - g) = unat p - unat g" using True by (simp add: unat_sub)
    moreover have "(unat p + unat N - unat g) mod unat N = unat p - unat g"
      using le gN pN by (simp add: mod_if)
    ultimately show ?thesis using True by (simp add: ring_dist_def)
  next
    case False
    then have lt: "unat p < unat g" by (simp add: word_le_nat_alt)
    have "unat (N - g) = unat N - unat g" using assms(1) by (simp add: unat_sub)
    then have "unat (N - g + p) = unat N - unat g + unat p"
      using lt gN Nb by (simp add: unat_word_ariths)
    moreover have "(unat p + unat N - unat g) mod unat N = unat N - unat g + unat p"
      using lt gN pN by (auto simp: mod_if)
    ultimately show ?thesis using False by (simp add: ring_dist_def)
  qed
qed

lemma update_progress_with_max_closed:
  assumes wf: "channel_wf c"
    and infos: "\<forall>e \<in> set (pending_entries c). push_info e \<noteq> None"
    and r: "r = retire_count mode cv (unat budget) (pending_entries c)"
  shows "uvm_channel_update_progress_with_max c cv budget mode =
           Inr (word_of_nat (pending_count c - r),
                c\<lparr>pushbuffer_completed := pushbuffer_completed c @ take r (pending_entries c),
                  available_push_infos :=
                    available_push_infos c
                      @ map (\<lambda>e. the (push_info e)) (take r (pending_entries c)),
                  gpu_get := word_of_nat ((unat (gpu_get c) + r) mod unat (numGpFifoEntries c))\<rparr>)"
proof -
  let ?N = "numGpFifoEntries c"
  let ?g' = "word_of_nat ((unat (gpu_get c) + r) mod unat ?N) :: NvU32"
  from wf have N: "?N \<noteq> 0" and len: "length (gpfifo_entries c) = unat ?N"
    and p: "cpu_put c < ?N" and g: "gpu_get c < ?N"
    by (simp_all add: channel_wf_def)
  have gN: "unat (gpu_get c) < unat ?N" and pN: "unat (cpu_put c) < unat ?N"
    using p g by (simp_all add: word_less_nat_alt)
  have Nb: "unat ?N < 2 ^ 32" using unsigned_less [of ?N, where 'a = nat] by simp
  have loop: "update_progress_loop c cv budget mode (cpu_put c) (gpu_get c) 0 =
        Inr (c\<lparr>pushbuffer_completed := pushbuffer_completed c @ take r (pending_entries c),
               available_push_infos :=
                 available_push_infos c
                   @ map (\<lambda>e. the (push_info e)) (take r (pending_entries c))\<rparr>,
             ?g', 0 + word_of_nat r)"
    by (rule update_progress_loop_closed [OF N len p g])
       (use infos r in \<open>simp_all add: pending_entries_def pending_count_def\<close>)
  have ug': "unat ?g' = (unat (gpu_get c) + r) mod unat ?N"
  proof -
    have "(unat (gpu_get c) + r) mod unat ?N < unat ?N" using gN by simp
    then have "(unat (gpu_get c) + r) mod unat ?N < 2 ^ 32" using Nb by simp
    then show ?thesis by (simp add: unat_of_nat)
  qed
  have g'N: "?g' < ?N" using gN by (simp add: word_less_nat_alt ug')
  have rle: "r \<le> pending_count c"
    using retire_count_le [of mode cv "unat budget" "pending_entries c"] r
    by (simp add: pending_entries_def)
  have "unat (if ?g' \<le> cpu_put c then cpu_put c - ?g' else ?N - ?g' + cpu_put c)
          = pending_count c - r"
    using pending_word [OF g'N p] ring_dist_advance [OF gN pN, of r] rle
    by (simp add: ug' pending_count_def)
  then have "word_of_nat
          (unat (if ?g' \<le> cpu_put c then cpu_put c - ?g' else ?N - ?g' + cpu_put c))
          = (word_of_nat (pending_count c - r) :: NvU32)"
    by (rule arg_cong)
  then have pend: "(if ?g' \<le> cpu_put c then cpu_put c - ?g' else ?N - ?g' + cpu_put c)
          = word_of_nat (pending_count c - r)"
    by (simp only: of_nat_unat ucast_id)
  show ?thesis
    unfolding uvm_channel_update_progress_with_max_def loop
    using pend by simp
qed

lemma retire_step_get:
  assumes "channel_wf c"
  shows "unat (gpu_get (retire_step c r)) = (unat (gpu_get c) + r) mod unat (numGpFifoEntries c)"
proof -
  let ?N = "numGpFifoEntries c"
  have "unat ?N \<noteq> 0" using assms by (simp add: channel_wf_def unat_eq_zero)
  then have "(unat (gpu_get c) + r) mod unat ?N < unat ?N" by simp
  moreover have "unat ?N < 2 ^ 32" using unsigned_less [of ?N, where 'a = nat] by simp
  ultimately have "(unat (gpu_get c) + r) mod unat ?N < 2 ^ 32" by simp
  then show ?thesis by (simp add: retire_step_def unat_of_nat)
qed

lemma retire_step_wf:
  assumes "channel_wf c"
  shows "channel_wf (retire_step c r)"
proof -
  have "unat (numGpFifoEntries c) \<noteq> 0" using assms by (simp add: channel_wf_def unat_eq_zero)
  then have "unat (gpu_get (retire_step c r)) < unat (numGpFifoEntries c)"
    by (simp add: retire_step_get [OF assms])
  then have "gpu_get (retire_step c r) < numGpFifoEntries (retire_step c r)"
    by (simp add: word_less_nat_alt retire_step_def)
  then show ?thesis using assms by (simp add: channel_wf_def retire_step_def)
qed

lemma retire_step_pending_count:
  assumes "channel_wf c" "r \<le> pending_count c"
  shows "pending_count (retire_step c r) = pending_count c - r"
proof -
  have gN: "unat (gpu_get c) < unat (numGpFifoEntries c)"
    and pN: "unat (cpu_put c) < unat (numGpFifoEntries c)"
    using assms by (simp_all add: channel_wf_def word_less_nat_alt)
  have "pending_count (retire_step c r)
          = ring_dist (unat (numGpFifoEntries c)) (unat (gpu_get (retire_step c r)))
              (unat (cpu_put c))"
    by (simp add: pending_count_def retire_step_def)
  also have "\<dots> = pending_count c - r"
    using ring_dist_advance [OF gN pN, of r] assms(2)
    by (simp add: retire_step_get [OF assms(1)] pending_count_def)
  finally show ?thesis .
qed

lemma retire_step_pending_entries:
  assumes "channel_wf c" "r \<le> pending_count c"
  shows "pending_entries (retire_step c r) = drop r (pending_entries c)"
proof -
  have "pending_entries (retire_step c r)
          = ring_slice (gpfifo_entries c) (unat (numGpFifoEntries c))
              (unat (gpu_get (retire_step c r))) (pending_count (retire_step c r))"
    by (simp add: pending_entries_def retire_step_def)
  also have "\<dots> = drop r (pending_entries c)"
    using ring_slice_drop [OF assms(2), of "gpfifo_entries c" "unat (numGpFifoEntries c)"
            "unat (gpu_get c)"]
    by (simp add: retire_step_get [OF assms(1)] retire_step_pending_count [OF assms]
          pending_entries_def)
  finally show ?thesis .
qed

lemma length_pending_entries [simp]: "length (pending_entries c) = pending_count c"
  by (simp add: pending_entries_def)

lemma update_progress_with_max_retire_step:
  assumes "channel_wf c" "\<forall>e \<in> set (pending_entries c). push_info e \<noteq> None"
  shows "uvm_channel_update_progress_with_max c cv budget mode =
           Inr (word_of_nat (pending_count c
                   - retire_count mode cv (unat budget) (pending_entries c)),
                retire_step c (retire_count mode cv (unat budget) (pending_entries c)))"
  using update_progress_with_max_closed [OF assms refl, where mode = mode and cv = cv
           and budget = budget]
  by (simp add: retire_step_def)




lemma ring_dist_wrap:
  assumes "g < N" "p < N"
  shows "(g + ring_dist N g p) mod N = p"
proof -
  have "ring_dist N ((g + ring_dist N g p) mod N) p = 0"
    using ring_dist_advance [OF assms, of "ring_dist N g p"] by simp
  moreover have "(g + ring_dist N g p) mod N < N" using assms by simp
  ultimately show ?thesis using assms(2) by (simp add: ring_dist_zero_iff)
qed


section \<open>Properties of progress reclamation\<close>



section \<open>Properties of the health check\<close>

text \<open>
  C8. \<open>uvm_channel_get_status\<close> returns \<open>NV_OK\<close> exactly when the fault notifier's
  status field is zero. With a nonzero status it returns \<open>NV_ERR_ECC_ERROR\<close> exactly when
  ECC is enabled and the ECC error notifier is set at the read, and \<open>NV_ERR_RC_ERROR\<close>
  otherwise.
\<close>

theorem uvm_channel_get_status_cases:
  "(uvm_channel_get_status c ecc = NV_OK \<longleftrightarrow> errorNotifier_status c = 0)
   \<and> (errorNotifier_status c \<noteq> 0 \<longrightarrow>
        (uvm_channel_get_status c ecc = NV_ERR_ECC_ERROR
           \<longleftrightarrow> ecc_enabled ecc \<and> ecc_error_notifier ecc)
        \<and> (\<not> (ecc_enabled ecc \<and> ecc_error_notifier ecc)
              \<longrightarrow> uvm_channel_get_status c ecc = NV_ERR_RC_ERROR))"
  by (simp add: uvm_channel_get_status_def)

theorem uvm_channel_get_status_cases_witness:
  "uvm_channel_get_status (created_channel 4\<lparr>errorNotifier_status := 1\<rparr>)
     \<lparr>ecc_enabled = True, ecc_error_notifier = True\<rparr> = NV_ERR_ECC_ERROR
   \<and> uvm_channel_get_status (created_channel 4\<lparr>errorNotifier_status := 1\<rparr>)
     \<lparr>ecc_enabled = True, ecc_error_notifier = False\<rparr> = NV_ERR_RC_ERROR"
  using uvm_channel_get_status_cases
      [of "created_channel 4\<lparr>errorNotifier_status := 1\<rparr>"
          "\<lparr>ecc_enabled = True, ecc_error_notifier = True\<rparr>"]
    uvm_channel_get_status_cases
      [of "created_channel 4\<lparr>errorNotifier_status := 1\<rparr>"
          "\<lparr>ecc_enabled = True, ecc_error_notifier = False\<rparr>"]
  by (simp add: created_channel_def)

section \<open>Ring arithmetic for submission\<close>

lemma unat_succ_no_wrap:
  fixes q :: "'a::len word"
  assumes "q \<noteq> - 1"
  shows "unat (q + 1) = unat q + 1"
proof -
  have "1 + q \<noteq> 0" using assms by (simp add: eq_neg_iff_add_eq_0 add.commute)
  then have "unat (1 + q) = Suc (unat q)" by (rule unatSuc)
  then show ?thesis by (simp add: add.commute)
qed

lemma ring_dist_origin: "g < N \<Longrightarrow> j < N \<Longrightarrow> ring_dist N g ((g + j) mod N) = j"
proof -
  assume g: "g < N" and j: "j < N"
  have "((g + j) mod N + (N - g)) mod N = (g + j + (N - g)) mod N"
    by (simp add: mod_add_left_eq)
  also have "\<dots> = (j + N) mod N" using g by (simp add: ac_simps)
  also have "\<dots> = j" using j by simp
  finally show ?thesis using g by (simp add: ring_dist_def)
qed

lemma ring_dist_put_step:
  assumes "g < N" "p < N" "ring_dist N g p + 1 < N"
  shows "ring_dist N g ((p + 1) mod N) = ring_dist N g p + 1"
proof -
  have "((p + 1) mod N + (N - g)) mod N = (p + 1 + (N - g)) mod N"
    by (simp add: mod_add_left_eq)
  also have "\<dots> = ((p + (N - g)) mod N + 1) mod N"
    by (simp add: mod_simps)
  also have "\<dots> = (ring_dist N g p + 1) mod N"
    using assms(1) by (simp add: ring_dist_def)
  also have "\<dots> = ring_dist N g p + 1" using assms(3) by simp
  finally show ?thesis using assms(1) by (simp add: ring_dist_def)
qed

lemma ring_slice_snoc:
  assumes g: "g < N" and p: "p < N" and len: "length es = N"
  shows "ring_slice (es[p := e]) N g (ring_dist N g p + 1) = ring_slice es N g (ring_dist N g p) @ [e]"
proof -
  let ?d = "ring_dist N g p"
  have last: "(es[p := e]) ! ((g + ?d) mod N) = e"
    using ring_dist_wrap [OF g p] p len by simp
  have neq: "(g + j) mod N \<noteq> p" if "j < ?d" for j
  proof
    assume "(g + j) mod N = p"
    moreover have "j < N" using that ring_dist_less [OF g p] by simp
    ultimately have "?d = j" using ring_dist_origin [OF g, of j] by simp
    with that show False by simp
  qed
  have "(es[p := e]) ! ((g + j) mod N) = es ! ((g + j) mod N)" if "j < ?d" for j
    using neq [OF that] by (metis nth_list_update_neq)
  then have "map (\<lambda>j. (es[p := e]) ! ((g + j) mod N)) [0..<?d]
              = map (\<lambda>j. es ! ((g + j) mod N)) [0..<?d]"
    by (intro map_cong) simp_all
  with last show ?thesis by (simp add: ring_slice_def)
qed

lemma created_channel_wf: "n \<noteq> 0 \<Longrightarrow> channel_wf (created_channel n)"
  by (simp add: channel_wf_def created_channel_def word_neq_0_conv)

lemma created_channel_pending [simp]: "pending_count (created_channel n) = 0"
  by (simp add: pending_count_def created_channel_def ring_dist_def)

section \<open>Each operation preserves the invariants\<close>

lemma try_claim_channel_cases:
  assumes "try_claim_channel c = Inr (claimed, c')"
  shows "numGpFifoEntries c \<noteq> 0
         \<and> (claimed \<longleftrightarrow> (cpu_put c + current_pushes_count c + 1) mod numGpFifoEntries c
                            \<noteq> gpu_get c)
         \<and> c' = (if claimed then c\<lparr>current_pushes_count := current_pushes_count c + 1\<rparr> else c)"
  using assms
  by (auto simp: try_claim_channel_def is_channel_available_def Let_def split: if_splits)

lemma uvm_channel_begin_push_cases:
  assumes "uvm_channel_begin_push c push pb = Inr (st, c', push')"
  shows "\<exists>av. c' = c\<lparr>available_push_infos := av\<rparr>"
  using assms
  by (auto simp: uvm_channel_begin_push_def split: if_splits list.splits
           intro: exI [of _ "available_push_infos c"])

lemma uvm_channel_end_push_cases:
  assumes "uvm_channel_end_push c push = Inr (c', push')"
  shows "c' = c\<lparr>queued_value := queued_value c + 1,
               gpfifo_entries := (gpfifo_entries c)
                 [unat (cpu_put c) :=
                    \<lparr>tracking_semaphore_value = queued_value c + 1,
                     pushbuffer_offset = push_offset push,
                     pushbuffer_size = push_size push,
                     push_info = Some (push_info_index push)\<rparr>],
               current_pushes_count := current_pushes_count c - 1,
               cpu_put := (cpu_put c + 1) mod numGpFifoEntries c,
               gpput_writes := gpput_writes c @ [(cpu_put c + 1) mod numGpFifoEntries c]\<rparr>"
  using assms
  by (auto simp: uvm_channel_end_push_def Let_def split: if_splits)

lemma progress_cases:
  assumes "channel_wf c" "slots_bound c"
    and "uvm_channel_update_progress_with_max c cv budget mode = Inr (pending, c')"
  shows "\<exists>r \<le> pending_count c. c' = retire_step c r
            \<and> r = retire_count mode cv (unat budget) (pending_entries c)"
  using assms update_progress_with_max_retire_step [of c cv budget mode]
    retire_count_le [of mode cv "unat budget" "pending_entries c"]
  by (auto simp: slots_bound_def)

lemma pending_unchanged:
  assumes "numGpFifoEntries c' = numGpFifoEntries c" "gpu_get c' = gpu_get c"
    "cpu_put c' = cpu_put c" "gpfifo_entries c' = gpfifo_entries c"
  shows "pending_count c' = pending_count c" "pending_entries c' = pending_entries c"
    "channel_wf c' = channel_wf c"
  using assms by (simp_all add: pending_count_def pending_entries_def channel_wf_def)

lemma claim_preserves:
  assumes inv: "ring_invariant c" and big: "unat (numGpFifoEntries c) \<le> 2 ^ 31"
    and run: "try_claim_channel c = Inr (claimed, c')"
  shows "ring_invariant c'"
proof (cases claimed)
  case False
  with try_claim_channel_cases [OF run] inv show ?thesis by simp
next
  case True
  let ?N = "unat (numGpFifoEntries c)"
  let ?p = "unat (cpu_put c)" and ?g = "unat (gpu_get c)" and ?k = "unat (current_pushes_count c)"
  let ?d = "pending_count c"
  from inv have wf: "channel_wf c" and bound: "?k + ?d \<le> ?N - 1"
    by (simp_all add: ring_invariant_def)
  from wf have gN: "?g < ?N" and pN: "?p < ?N"
    by (simp_all add: channel_wf_def word_less_nat_alt)
  from try_claim_channel_cases [OF run] True
  have c': "c' = c\<lparr>current_pushes_count := current_pushes_count c + 1\<rparr>"
    and avail: "(cpu_put c + current_pushes_count c + 1) mod numGpFifoEntries c \<noteq> gpu_get c"
    by simp_all
  have nowrap: "?p + ?k + 1 < 2 ^ 32" using pN bound big by simp
  then have sum: "unat (cpu_put c + current_pushes_count c + 1) = ?p + ?k + 1"
    by (simp add: unat_word_ariths)
  have cnt: "unat (current_pushes_count c + 1) = ?k + 1"
    using nowrap by (simp add: unat_word_ariths)
  have e0: "(?p + ?k + 1) mod ?N \<noteq> ?g"
    using avail sum by (simp add: word_unat_eq_iff unat_mod)
  have e1: "(?g + ?d) mod ?N = ?p"
    unfolding pending_count_def by (rule ring_dist_wrap [OF gN pN])
  have "((?g + ?d) mod ?N + (?k + 1)) mod ?N \<noteq> ?g"
    using e0 by (simp only: e1 add.assoc simp_thms)
  then have e2: "(?g + ?d + (?k + 1)) mod ?N \<noteq> ?g"
    by (simp only: mod_add_left_eq simp_thms)
  have "?d + (?k + 1) \<noteq> ?N"
  proof
    assume "?d + (?k + 1) = ?N"
    then have eq: "?g + ?d + (?k + 1) = ?g + ?N" by simp
    have "(?g + ?N) mod ?N = ?g" using gN by simp
    then have "(?g + ?d + (?k + 1)) mod ?N = ?g" by (simp only: eq)
    with e2 show False by (simp only: simp_thms)
  qed
  with bound gN have "?k + 1 + ?d \<le> ?N - 1" by arith
  then show ?thesis
    using wf by (simp add: ring_invariant_def c' cnt pending_count_def channel_wf_def)
qed

lemma end_push_pending:
  assumes inv: "ring_invariant c" and claimed: "current_pushes_count c \<noteq> 0"
    and run: "uvm_channel_end_push c push = Inr (c', push')"
  shows "channel_wf c'"
    and "pending_count c' = pending_count c + 1"
    and "pending_entries c' =
           pending_entries c
             @ [\<lparr>tracking_semaphore_value = queued_value c + 1,
                 pushbuffer_offset = push_offset push,
                 pushbuffer_size = push_size push,
                 push_info = Some (push_info_index push)\<rparr>]"
    and "unat (current_pushes_count c') + 1 = unat (current_pushes_count c)"
proof -
  let ?N = "unat (numGpFifoEntries c)"
  let ?p = "unat (cpu_put c)" and ?g = "unat (gpu_get c)" and ?k = "unat (current_pushes_count c)"
  let ?d = "pending_count c"
  let ?e = "\<lparr>tracking_semaphore_value = queued_value c + 1,
             pushbuffer_offset = push_offset push,
             pushbuffer_size = push_size push,
             push_info = Some (push_info_index push)\<rparr>"
  note c' = uvm_channel_end_push_cases [OF run]
  from inv have wf: "channel_wf c" and bound: "?k + ?d \<le> ?N - 1"
    by (simp_all add: ring_invariant_def)
  from wf have gN: "?g < ?N" and pN: "?p < ?N" and len: "length (gpfifo_entries c) = ?N"
    and N0: "numGpFifoEntries c \<noteq> 0" and p: "cpu_put c < numGpFifoEntries c"
    by (simp_all add: channel_wf_def word_less_nat_alt)
  have k: "?k \<noteq> 0" using claimed by (simp add: unat_eq_zero)
  then have room: "?d + 1 < ?N" using bound by arith
  have put: "unat ((cpu_put c + 1) mod numGpFifoEntries c) = (?p + 1) mod ?N"
    by (rule unat_succ_mod [OF p])
  have "(cpu_put c + 1) mod numGpFifoEntries c < numGpFifoEntries c"
    using N0 by (simp add: word_mod_less_divisor word_neq_0_conv)
  then show "channel_wf c'" using wf by (simp add: c' channel_wf_def)
  have "pending_count c' = ring_dist ?N ?g ((?p + 1) mod ?N)"
    by (simp add: c' pending_count_def put)
  also have "\<dots> = ?d + 1"
    unfolding pending_count_def
    by (rule ring_dist_put_step [OF gN pN]) (use room in \<open>simp add: pending_count_def\<close>)
  finally show pc: "pending_count c' = ?d + 1" .
  have "pending_entries c' = ring_slice ((gpfifo_entries c)[?p := ?e]) ?N ?g (?d + 1)"
    using pc by (simp add: pending_entries_def) (simp add: c')
  also have "\<dots> = pending_entries c @ [?e]"
    unfolding pending_entries_def pending_count_def
    by (rule ring_slice_snoc [OF gN pN len])
  finally show "pending_entries c' = pending_entries c @ [?e]" .
  show "unat (current_pushes_count c') + 1 = ?k"
    using k by (simp add: c' unat_minus_one claimed)
qed

lemma end_push_preserves:
  assumes "channel_inv c" "current_pushes_count c \<noteq> 0"
    and "uvm_channel_end_push c push = Inr (c', push')"
  shows "channel_inv c'"
proof -
  from assms(1) have inv: "ring_invariant c" and sl: "slots_bound c"
    and logs: "length (gpput_writes c) = length (pushbuffer_completed c) + pending_count c"
    by (simp_all add: channel_inv_def)
  note c' = uvm_channel_end_push_cases [OF assms(3)]
  note e = end_push_pending [OF inv assms(2,3)]
  have N: "numGpFifoEntries c' = numGpFifoEntries c" by (simp add: c')
  have "unat (current_pushes_count c') + pending_count c'
          = unat (current_pushes_count c) + pending_count c"
    using e(2,4) by simp
  then have "ring_invariant c'"
    using inv e(1) by (simp add: ring_invariant_def N)
  moreover have "slots_bound c'" using sl by (simp add: slots_bound_def e(3))
  moreover have "length (gpput_writes c') = length (pushbuffer_completed c') + pending_count c'"
    using logs e(2) by (simp add: c')
  ultimately show ?thesis by (simp add: channel_inv_def)
qed

lemma progress_preserves:
  assumes "channel_inv c"
    and "uvm_channel_update_progress_with_max c cv budget mode = Inr (pending, c')"
  shows "channel_inv c'"
proof -
  from assms(1) have inv: "ring_invariant c" and sl: "slots_bound c"
    and logs: "length (gpput_writes c) = length (pushbuffer_completed c) + pending_count c"
    by (simp_all add: channel_inv_def)
  from inv have wf: "channel_wf c" by (simp add: ring_invariant_def)
  from progress_cases [OF wf sl assms(2)] obtain r
    where r: "r \<le> pending_count c" and c': "c' = retire_step c r" by blast
  have "unat (current_pushes_count c) + (pending_count c - r)
          \<le> unat (numGpFifoEntries c) - 1"
    using inv unfolding ring_invariant_def by arith
  moreover have "current_pushes_count (retire_step c r) = current_pushes_count c"
    "numGpFifoEntries (retire_step c r) = numGpFifoEntries c"
    by (simp_all add: retire_step_def)
  ultimately have "ring_invariant c'"
    using retire_step_wf [OF wf, of r] retire_step_pending_count [OF wf r]
    by (simp add: ring_invariant_def c')
  moreover have "slots_bound c'"
    using sl by (auto simp: slots_bound_def c' retire_step_pending_entries [OF wf r]
                     dest: in_set_dropD)
  moreover have "length (gpput_writes c') = length (pushbuffer_completed c') + pending_count c'"
    using logs r by (simp add: c' retire_step_pending_count [OF wf r]) (simp add: retire_step_def)
  ultimately show ?thesis by (simp add: channel_inv_def)
qed

lemma claim_preserves_inv:
  assumes "channel_inv c" "unat (numGpFifoEntries c) \<le> 2 ^ 31"
    and "try_claim_channel c = Inr (claimed, c')"
  shows "channel_inv c'"
proof -
  have "ring_invariant c'"
    using claim_preserves [OF _ assms(2,3)] assms(1) by (simp add: channel_inv_def)
  moreover from try_claim_channel_cases [OF assms(3)]
  have "c' = c \<or> c' = c\<lparr>current_pushes_count := current_pushes_count c + 1\<rparr>"
    by (auto split: if_splits)
  then have "pending_count c' = pending_count c \<and> pending_entries c' = pending_entries c
      \<and> gpput_writes c' = gpput_writes c \<and> pushbuffer_completed c' = pushbuffer_completed c"
    by (auto simp: pending_count_def pending_entries_def)
  ultimately show ?thesis using assms(1) by (simp add: channel_inv_def slots_bound_def)
qed

lemma begin_push_preserves_inv:
  assumes "channel_inv c"
    and "uvm_channel_begin_push c push pb = Inr (st, c', push')"
  shows "channel_inv c'"
proof -
  from uvm_channel_begin_push_cases [OF assms(2)]
  obtain av where "c' = c\<lparr>available_push_infos := av\<rparr>" by blast
  then show ?thesis
    using assms(1)
    by (simp add: channel_inv_def slots_bound_def ring_invariant_def channel_wf_def
          pending_count_def pending_entries_def)
qed

lemma created_channel_inv: "n \<noteq> 0 \<Longrightarrow> channel_inv (created_channel n)"
  using created_channel_wf [of n]
  by (simp add: channel_inv_def ring_invariant_def slots_bound_def pending_entries_def
        ring_slice_def)
     (simp add: created_channel_def)

lemma update_progress_loop_fields:
  "update_progress_loop ch cv mx mode p g cc = Inr (ch', g', cc') \<Longrightarrow>
   numGpFifoEntries ch' = numGpFifoEntries ch \<and> gpput_writes ch' = gpput_writes ch"
proof (induction ch cv mx mode p g cc rule: update_progress_loop.induct)
  case (1 channel completed_value max_to_complete mode cpu_put_l gpu_get_l completed_count)
  show ?case
  proof (cases "gpu_get_l \<noteq> cpu_put_l \<and> completed_count < max_to_complete
                \<and> unat gpu_get_l < length (gpfifo_entries channel)
                \<and> \<not> (mode = UVM_CHANNEL_UPDATE_MODE_COMPLETED
                       \<and> tracking_semaphore_value (gpfifo_entries channel ! unat gpu_get_l)
                            > completed_value)
                \<and> push_info (gpfifo_entries channel ! unat gpu_get_l) \<noteq> None
                \<and> numGpFifoEntries channel \<noteq> 0")
    case True
    then have "update_progress_loop channel completed_value max_to_complete mode cpu_put_l
                 gpu_get_l completed_count
               = update_progress_loop
                   (channel\<lparr>pushbuffer_completed :=
                       pushbuffer_completed channel @ [gpfifo_entries channel ! unat gpu_get_l],
                     available_push_infos :=
                       available_push_infos channel
                         @ [the (push_info (gpfifo_entries channel ! unat gpu_get_l))]\<rparr>)
                   completed_value max_to_complete mode cpu_put_l
                   ((gpu_get_l + 1) mod numGpFifoEntries channel) (completed_count + 1)"
      by (intro update_progress_loop_step) auto
    with "1.prems" "1.IH" True show ?thesis by auto
  next
    case False
    with "1.prems" have "ch' = channel"
      by (subst (asm) update_progress_loop.simps) (auto split: if_splits)
    then show ?thesis by simp
  qed
qed

lemma progress_fields:
  assumes "uvm_channel_update_progress_with_max c cv budget mode = Inr (pending, c')"
  shows "numGpFifoEntries c' = numGpFifoEntries c" "gpput_writes c' = gpput_writes c"
  using assms update_progress_loop_fields [of c cv budget mode "cpu_put c" "gpu_get c" 0]
  by (auto simp: uvm_channel_update_progress_with_max_def split: sum.splits prod.splits)

lemma reachable_step_fields:
  "try_claim_channel c = Inr (claimed, c') \<Longrightarrow>
     numGpFifoEntries c' = numGpFifoEntries c \<and> gpput_writes c' = gpput_writes c"
  "uvm_channel_begin_push c push pb = Inr (st, c', push') \<Longrightarrow>
     numGpFifoEntries c' = numGpFifoEntries c \<and> gpput_writes c' = gpput_writes c"
  "uvm_channel_end_push c push = Inr (c', push') \<Longrightarrow>
     numGpFifoEntries c' = numGpFifoEntries c
     \<and> length (gpput_writes c') = length (gpput_writes c) + 1"
  using try_claim_channel_cases [of c claimed c']
    uvm_channel_begin_push_cases [of c push pb st c' push']
    uvm_channel_end_push_cases [of c push c' push']
  by (auto split: if_splits)

lemma reachable_channel_inv:
  assumes "reachable c"
  shows "unat (numGpFifoEntries c) \<le> 2 ^ 31 \<longrightarrow> channel_inv c"
  using assms
proof (induction rule: reachable.induct)
  case (created n)
  then show ?case by (simp add: created_channel_inv)
next
  case (claim c claimed c')
  then show ?case
    using reachable_step_fields(1) [of c claimed c'] claim_preserves_inv [of c claimed c']
    by auto
next
  case (begin_push c push pb_status status c' push')
  then show ?case
    using reachable_step_fields(2) [of c push pb_status status c' push']
      begin_push_preserves_inv [of c push pb_status status c' push']
    by auto
next
  case (end_push c push c' push')
  then show ?case
    using reachable_step_fields(3) [of c push c' push'] end_push_preserves [of c push c' push']
    by auto
next
  case (progress c completed_value budget mode pending c')
  then show ?case
    using progress_fields(1) [of c completed_value budget mode pending c']
      progress_preserves [of c completed_value budget mode pending c']
    by auto
next
  case (notified c s)
  then show ?case
    by (simp add: channel_inv_def slots_bound_def ring_invariant_def channel_wf_def
          pending_count_def pending_entries_def)
qed

lemma sorted_wrt_snoc_bound:
  fixes f :: "'a \<Rightarrow> 'b::order"
  assumes "sorted_wrt (<) (map f xs)" "\<forall>x \<in> set xs. f x \<le> q" "q < f e"
  shows "sorted_wrt (<) (map f (xs @ [e]))"
  using assms by (auto simp: sorted_wrt_append intro: le_less_trans)

lemma created_channel_order: "order_inv (created_channel n)"
  by (simp add: order_inv_def pending_entries_def ring_slice_def)
     (simp add: created_channel_def)

lemma end_push_order:
  assumes inv: "channel_inv c" and ord: "order_inv c"
    and claimed: "current_pushes_count c \<noteq> 0"
    and run: "uvm_channel_end_push c push = Inr (c', push')"
    and small: "length (gpput_writes c') < 2 ^ 64"
  shows "order_inv c'"
proof -
  let ?e = "\<lparr>tracking_semaphore_value = queued_value c + 1,
             pushbuffer_offset = push_offset push,
             pushbuffer_size = push_size push,
             push_info = Some (push_info_index push)\<rparr>"
  let ?old = "pushbuffer_completed c @ pending_entries c"
  note c' = uvm_channel_end_push_cases [OF run]
  from inv have rinv: "ring_invariant c" by (simp add: channel_inv_def)
  note e = end_push_pending [OF rinv claimed run]
  from ord have q: "unat (queued_value c) = length (gpput_writes c)"
    and srt: "sorted_wrt (<) (map tracking_semaphore_value ?old)"
    and le: "\<forall>e \<in> set ?old. tracking_semaphore_value e \<le> queued_value c"
    by (simp_all add: order_inv_def)
  have "length (gpput_writes c) + 1 < 2 ^ 64" using small by (simp add: c')
  then have "unat (queued_value c) \<noteq> 2 ^ 64 - 1" using q by simp
  then have "queued_value c \<noteq> - 1"
    by (auto simp: unsigned_minus_1_eq_mask mask_eq_exp_minus_1)
  then have q1: "unat (queued_value c + 1) = unat (queued_value c) + 1"
    by (rule unat_succ_no_wrap)
  then have lt: "queued_value c < queued_value c + 1"
    by (simp add: word_less_nat_alt)
  have new: "pushbuffer_completed c' @ pending_entries c' = ?old @ [?e]"
    by (simp add: e(3)) (simp add: c')
  have "unat (queued_value c') = length (gpput_writes c')"
    using q q1 by (simp add: c')
  moreover have "sorted_wrt (<) (map tracking_semaphore_value (?old @ [?e]))"
    by (rule sorted_wrt_snoc_bound [OF srt le]) (use lt in simp)
  moreover have "\<forall>x \<in> set (?old @ [?e]). tracking_semaphore_value x \<le> queued_value c'"
  proof
    fix x assume "x \<in> set (?old @ [?e])"
    then have "tracking_semaphore_value x \<le> queued_value c
               \<or> tracking_semaphore_value x = queued_value c + 1"
      using le by auto
    then have "tracking_semaphore_value x \<le> queued_value c + 1"
      using lt by (auto intro: order_trans less_imp_le)
    then show "tracking_semaphore_value x \<le> queued_value c'" by (simp add: c')
  qed
  ultimately show ?thesis unfolding order_inv_def new by simp
qed

lemma progress_order:
  assumes inv: "channel_inv c" and ord: "order_inv c"
    and run: "uvm_channel_update_progress_with_max c cv budget mode = Inr (pending, c')"
  shows "order_inv c'"
proof -
  from inv have wf: "channel_wf c" and sl: "slots_bound c"
    by (simp_all add: channel_inv_def ring_invariant_def)
  from progress_cases [OF wf sl run] obtain r
    where r: "r \<le> pending_count c" and c': "c' = retire_step c r" by blast
  have "pushbuffer_completed c' @ pending_entries c'
          = pushbuffer_completed c @ pending_entries c"
    by (simp add: c' retire_step_pending_entries [OF wf r]) (simp add: retire_step_def)
  moreover have "queued_value c' = queued_value c" "gpput_writes c' = gpput_writes c"
    by (simp_all add: c' retire_step_def)
  ultimately show ?thesis using ord by (simp add: order_inv_def)
qed

lemma reachable_order_inv:
  assumes "reachable c"
  shows "unat (numGpFifoEntries c) \<le> 2 ^ 31 \<and> length (gpput_writes c) < 2 ^ 64
           \<longrightarrow> order_inv c"
  using assms
proof (induction rule: reachable.induct)
  case (created n)
  then show ?case by (simp add: created_channel_order)
next
  case (claim c claimed c')
  from try_claim_channel_cases [OF claim.hyps(2)]
  have "c' = c \<or> c' = c\<lparr>current_pushes_count := current_pushes_count c + 1\<rparr>"
    by (auto split: if_splits)
  then have "order_inv c' = order_inv c" "numGpFifoEntries c' = numGpFifoEntries c"
    "gpput_writes c' = gpput_writes c"
    by (auto simp: order_inv_def pending_entries_def pending_count_def)
  with claim.IH show ?case by simp
next
  case (begin_push c push pb_status status c' push')
  from uvm_channel_begin_push_cases [OF begin_push.hyps(2)]
  obtain av where "c' = c\<lparr>available_push_infos := av\<rparr>" by blast
  then have "order_inv c' = order_inv c" "numGpFifoEntries c' = numGpFifoEntries c"
    "gpput_writes c' = gpput_writes c"
    by (auto simp: order_inv_def pending_entries_def pending_count_def)
  with begin_push.IH show ?case by simp
next
  case (end_push c push c' push')
  show ?case
  proof
    assume a: "unat (numGpFifoEntries c') \<le> 2 ^ 31 \<and> length (gpput_writes c') < 2 ^ 64"
    note f = reachable_step_fields(3) [OF end_push.hyps(3)]
    from a f have b: "unat (numGpFifoEntries c) \<le> 2 ^ 31" "length (gpput_writes c) < 2 ^ 64"
      by simp_all
    from reachable_channel_inv [OF end_push.hyps(1)] b have "channel_inv c" by simp
    moreover from end_push.IH b have "order_inv c" by simp
    ultimately show "order_inv c'"
      using end_push.hyps(2,3) a by (intro end_push_order [of c push c' push']) simp_all
  qed
next
  case (progress c completed_value budget mode pending c')
  show ?case
  proof
    assume a: "unat (numGpFifoEntries c') \<le> 2 ^ 31 \<and> length (gpput_writes c') < 2 ^ 64"
    note f = progress_fields [OF progress.hyps(2)]
    from a f have b: "unat (numGpFifoEntries c) \<le> 2 ^ 31" "length (gpput_writes c) < 2 ^ 64"
      by simp_all
    from reachable_channel_inv [OF progress.hyps(1)] b have "channel_inv c" by simp
    moreover from progress.IH b have "order_inv c" by simp
    ultimately show "order_inv c'"
      using progress.hyps(2) by (rule progress_order)
  qed
next
  case (notified c s)
  then show ?case
    by (simp add: order_inv_def pending_count_def pending_entries_def)
qed

lemma uvm_channel_end_push_returns:
  assumes "channel_wf c"
  shows "\<exists>c' push'. uvm_channel_end_push c push = Inr (c', push')"
proof -
  have "unat (cpu_put c) < length (gpfifo_entries c)" "numGpFifoEntries c \<noteq> 0"
    using assms by (simp_all add: channel_wf_def word_less_nat_alt)
  then show ?thesis by (simp add: uvm_channel_end_push_def Let_def)
qed

lemma try_claim_channel_returns:
  assumes "channel_wf c"
  shows "\<exists>claimed c'. try_claim_channel c = Inr (claimed, c')"
  using assms
  by (auto simp: channel_wf_def try_claim_channel_def is_channel_available_def Let_def)

lemma claim_created:
  "try_claim_channel (created_channel 4)
     = Inr (True, (created_channel 4)\<lparr>current_pushes_count := 1\<rparr>)"
  by (simp add: try_claim_channel_def is_channel_available_def created_channel_def)

lemma reachable_claimed: "reachable ((created_channel 4)\<lparr>current_pushes_count := 1\<rparr>)"
  by (rule reachable.claim [OF reachable.created claim_created]) simp

section \<open>Properties of submission\<close>

text \<open>
  C4. On a well-formed channel with an outstanding claim whose tracking counter is not at its
  last value, \<open>uvm_channel_end_push\<close> returns. The new tracking value is the counter plus
  one, above every value up to the old counter, hence above every value allocated before: in
  a reachable state it is above the tracking value of every entry retired or pending.
  The ring entry at the old \<open>cpu_put\<close> holds that value, the push's pushbuffer offset and
  size and the push's metadata slot; \<open>cpu_put\<close> advances by one modulo \<open>N\<close>;
  \<open>current_pushes_count\<close> drops by one; the new \<open>cpu_put\<close> is written to the doorbell;
  the completion-signal command carries the low 32 bits of the value.
\<close>

theorem uvm_channel_end_push_spec:
  assumes wf: "channel_wf c"
    and claimed: "current_pushes_count c \<noteq> 0"
    and nowrap: "queued_value c \<noteq> - 1"
  shows "\<exists>c' push'.
           uvm_channel_end_push c push = Inr (c', push')
         \<and> queued_value c' = queued_value c + 1
         \<and> (\<forall>v \<le> queued_value c. v < queued_value c')
         \<and> (reachable c \<and> unat (numGpFifoEntries c) \<le> 2 ^ 31
                \<and> length (gpput_writes c) < 2 ^ 64 \<longrightarrow>
              (\<forall>e \<in> set (pushbuffer_completed c) \<union> set (pending_entries c).
                 tracking_semaphore_value e < queued_value c'))
         \<and> gpfifo_entries c' =
              (gpfifo_entries c)
                [unat (cpu_put c) :=
                   \<lparr>tracking_semaphore_value = queued_value c',
                    pushbuffer_offset = push_offset push,
                    pushbuffer_size = push_size push,
                    push_info = Some (push_info_index push)\<rparr>]
         \<and> gpfifo_entries c' ! unat (cpu_put c) =
              \<lparr>tracking_semaphore_value = queued_value c',
               pushbuffer_offset = push_offset push,
               pushbuffer_size = push_size push,
               push_info = Some (push_info_index push)\<rparr>
         \<and> cpu_put c' = (cpu_put c + 1) mod numGpFifoEntries c
         \<and> unat (cpu_put c') = (unat (cpu_put c) + 1) mod unat (numGpFifoEntries c)
         \<and> current_pushes_count c' = current_pushes_count c - 1
         \<and> unat (current_pushes_count c') + 1 = unat (current_pushes_count c)
         \<and> gpput_writes c' = gpput_writes c @ [cpu_put c']
         \<and> gpu_get c' = gpu_get c
         \<and> numGpFifoEntries c' = numGpFifoEntries c
         \<and> channel_tracking_value push' = queued_value c'
         \<and> semaphore_payloads push' = semaphore_payloads push @ [ucast (queued_value c')]"
proof -
  let ?N = "numGpFifoEntries c"
  let ?e = "\<lparr>tracking_semaphore_value = queued_value c + 1,
             pushbuffer_offset = push_offset push,
             pushbuffer_size = push_size push,
             push_info = Some (push_info_index push)\<rparr>"
  let ?c' = "c\<lparr>queued_value := queued_value c + 1,
               gpfifo_entries := (gpfifo_entries c)[unat (cpu_put c) := ?e],
               current_pushes_count := current_pushes_count c - 1,
               cpu_put := (cpu_put c + 1) mod ?N,
               gpput_writes := gpput_writes c @ [(cpu_put c + 1) mod ?N]\<rparr>"
  let ?p' = "push\<lparr>semaphore_payloads := semaphore_payloads push @ [ucast (queued_value c + 1)],
                  push_info_index := - 1,
                  channel_tracking_value := queued_value c + 1\<rparr>"
  from wf have N: "?N \<noteq> 0" and len: "length (gpfifo_entries c) = unat ?N"
    and p: "cpu_put c < ?N"
    by (simp_all add: channel_wf_def)
  have pN: "unat (cpu_put c) < length (gpfifo_entries c)"
    using p len by (simp add: word_less_nat_alt)
  have run: "uvm_channel_end_push c push = Inr (?c', ?p')"
    using N pN by (simp add: uvm_channel_end_push_def Let_def)
  have q: "unat (queued_value c + 1) = unat (queued_value c) + 1"
    by (rule unat_succ_no_wrap [OF nowrap])
  have greater: "\<forall>v \<le> queued_value c. v < queued_value c + 1"
    using q by (auto simp: word_le_nat_alt word_less_nat_alt)
  have put: "unat ((cpu_put c + 1) mod ?N) = (unat (cpu_put c) + 1) mod unat ?N"
    by (rule unat_succ_mod [OF p])
  have "unat (current_pushes_count c) \<noteq> 0" using claimed by (simp add: unat_eq_zero)
  then have cnt: "unat (current_pushes_count c - 1) + 1 = unat (current_pushes_count c)"
    by (simp add: unat_minus_one claimed)
  have earlier: "reachable c \<and> unat (numGpFifoEntries c) \<le> 2 ^ 31
                \<and> length (gpput_writes c) < 2 ^ 64 \<longrightarrow>
              (\<forall>e \<in> set (pushbuffer_completed c) \<union> set (pending_entries c).
                 tracking_semaphore_value e < queued_value c + 1)"
  proof (intro impI ballI, elim conjE)
    fix e
    assume r: "reachable c" and n: "unat (numGpFifoEntries c) \<le> 2 ^ 31"
      and l: "length (gpput_writes c) < 2 ^ 64"
      and e: "e \<in> set (pushbuffer_completed c) \<union> set (pending_entries c)"
    from reachable_order_inv [OF r] n l have "order_inv c" by simp
    with e have "tracking_semaphore_value e \<le> queued_value c"
      by (simp add: order_inv_def)
    with greater show "tracking_semaphore_value e < queued_value c + 1" by blast
  qed
  show ?thesis
    apply (rule exI [of _ ?c'])
    apply (rule exI [of _ ?p'])
    using run greater put cnt pN earlier
    by simp
qed

theorem uvm_channel_end_push_spec_witness:
  "\<exists>c' push'.
     uvm_channel_end_push ((created_channel 4)\<lparr>current_pushes_count := 1\<rparr>)
       \<lparr>push_size = 16, push_offset = 0, push_gpu_va = 4096, push_info_index = 0,
        channel_tracking_value = 0, semaphore_payloads = []\<rparr> = Inr (c', push')
     \<and> queued_value c' = 1 \<and> cpu_put c' = 1 \<and> current_pushes_count c' = 0
     \<and> gpput_writes c' = [1] \<and> channel_tracking_value push' = 1"
proof -
  let ?c = "(created_channel 4)\<lparr>current_pushes_count := 1\<rparr>"
  let ?p = "\<lparr>push_size = 16, push_offset = 0, push_gpu_va = 4096, push_info_index = 0,
        channel_tracking_value = 0, semaphore_payloads = []\<rparr>"
  have wf: "channel_wf ?c" using created_channel_wf [of 4] by (simp add: channel_wf_def)
  have cl: "current_pushes_count ?c \<noteq> 0" by simp
  have nw: "queued_value ?c \<noteq> - 1" by (simp add: created_channel_def)
  from uvm_channel_end_push_spec [OF wf cl nw, of ?p]
  obtain c' push' where r: "uvm_channel_end_push ?c ?p = Inr (c', push')"
    "queued_value c' = queued_value ?c + 1"
    "cpu_put c' = (cpu_put ?c + 1) mod numGpFifoEntries ?c"
    "current_pushes_count c' = current_pushes_count ?c - 1"
    "gpput_writes c' = gpput_writes ?c @ [cpu_put c']"
    "channel_tracking_value push' = queued_value c'"
    by blast
  from r(2-6) have "queued_value c' = 1" "cpu_put c' = 1" "current_pushes_count c' = 0"
    "gpput_writes c' = [1]" "channel_tracking_value push' = 1"
    by (simp_all add: created_channel_def)
  with r(1) show ?thesis by blast
qed

section \<open>The ring invariant\<close>

text \<open>
  C3. In every reachable state of a channel of capacity \<open>N\<close> at most \<open>2^31\<close>, the
  claimed slots plus the pending entries \<open>(cpu_put + N - gpu_get) mod N\<close> are at most
  \<open>N - 1\<close>. The pending entries are exactly those submitted and not yet retired, so
  \<open>cpu_put = gpu_get\<close> means that nothing is pending, never that the ring is full. A
  claim attempt, the end of a claimed push and reclamation each return and lead to a state
  with the invariant again.
\<close>

theorem ring_invariant_reachable:
  assumes "reachable c" and "unat (numGpFifoEntries c) \<le> 2 ^ 31"
  shows "unat (current_pushes_count c) + pending_count c \<le> unat (numGpFifoEntries c) - 1
       \<and> pending_count c =
           (unat (cpu_put c) + unat (numGpFifoEntries c) - unat (gpu_get c))
              mod unat (numGpFifoEntries c)
       \<and> length (gpput_writes c) = length (pushbuffer_completed c) + pending_count c
       \<and> (cpu_put c = gpu_get c \<longrightarrow>
            length (gpput_writes c) = length (pushbuffer_completed c))
       \<and> (\<exists>claimed c'. try_claim_channel c = Inr (claimed, c'))
       \<and> (\<forall>claimed c'. try_claim_channel c = Inr (claimed, c') \<longrightarrow> ring_invariant c')
       \<and> (\<forall>push. \<exists>c' push'. uvm_channel_end_push c push = Inr (c', push'))
       \<and> (\<forall>push c' push'.
             current_pushes_count c \<noteq> 0 \<and> uvm_channel_end_push c push = Inr (c', push')
               \<longrightarrow> ring_invariant c')
       \<and> (\<forall>cv budget mode. \<exists>pending c'.
             uvm_channel_update_progress_with_max c cv budget mode = Inr (pending, c'))
       \<and> (\<forall>cv budget mode pending c'.
             uvm_channel_update_progress_with_max c cv budget mode = Inr (pending, c')
               \<longrightarrow> ring_invariant c')"
proof -
  from reachable_channel_inv [OF assms(1)] assms(2) have inv: "channel_inv c" by simp
  then have rinv: "ring_invariant c" and sl: "slots_bound c"
    and logs: "length (gpput_writes c) = length (pushbuffer_completed c) + pending_count c"
    by (simp_all add: channel_inv_def)
  then have wf: "channel_wf c"
    and bound: "unat (current_pushes_count c) + pending_count c
                  \<le> unat (numGpFifoEntries c) - 1"
    by (simp_all add: ring_invariant_def)
  have gN: "unat (gpu_get c) < unat (numGpFifoEntries c)"
    using wf by (simp add: channel_wf_def word_less_nat_alt)
  have empty: "cpu_put c = gpu_get c \<longrightarrow>
            length (gpput_writes c) = length (pushbuffer_completed c)"
    using logs gN by (auto simp: pending_count_def ring_dist_self)
  have claim: "\<forall>claimed c'. try_claim_channel c = Inr (claimed, c') \<longrightarrow> ring_invariant c'"
    using claim_preserves [OF rinv assms(2)] by blast
  have endp: "\<forall>push c' push'.
             current_pushes_count c \<noteq> 0 \<and> uvm_channel_end_push c push = Inr (c', push')
               \<longrightarrow> ring_invariant c'"
    using end_push_preserves [OF inv] by (auto simp: channel_inv_def)
  have prog: "\<forall>cv budget mode pending c'.
             uvm_channel_update_progress_with_max c cv budget mode = Inr (pending, c')
               \<longrightarrow> ring_invariant c'"
    using progress_preserves [OF inv] by (auto simp: channel_inv_def)
  have prog_ret: "\<forall>cv budget mode. \<exists>pending c'.
             uvm_channel_update_progress_with_max c cv budget mode = Inr (pending, c')"
    using update_progress_with_max_retire_step [OF wf] sl by (simp add: slots_bound_def)
  show ?thesis
    using bound logs empty claim endp prog prog_ret try_claim_channel_returns [OF wf]
      uvm_channel_end_push_returns [OF wf]
    by (simp add: pending_count_def ring_dist_def)
qed

theorem ring_invariant_reachable_witness:
  "reachable ((created_channel 4)\<lparr>current_pushes_count := 1\<rparr>)
   \<and> unat (numGpFifoEntries ((created_channel 4)\<lparr>current_pushes_count := 1\<rparr>)) \<le> 2 ^ 31
   \<and> unat (current_pushes_count ((created_channel 4)\<lparr>current_pushes_count := 1\<rparr>))
        + pending_count ((created_channel 4)\<lparr>current_pushes_count := 1\<rparr>) \<le> 3"
proof -
  let ?c = "(created_channel 4)\<lparr>current_pushes_count := 1\<rparr>"
  have n: "unat (numGpFifoEntries ?c) \<le> 2 ^ 31" by (simp add: created_channel_def)
  have "unat (numGpFifoEntries ?c) - 1 = 3" by (simp add: created_channel_def)
  with ring_invariant_reachable [OF reachable_claimed n] reachable_claimed n
  show ?thesis by simp
qed

section \<open>Retirement order\<close>



section \<open>Engine selection without an eligible engine\<close>







text \<open>
  C10. The claim that the increment at the end of \<open>pick_ce_for_channel_type\<close> uses an
  index below \<open>UVM_COPY_ENGINE_COUNT_MAX\<close> does not hold of the code: on a table of one
  engine that cannot reach system memory, the loop for \<open>UVM_CHANNEL_TYPE_CPU_TO_GPU\<close>
  leaves \<open>best_ce\<close> at \<open>UVM_COPY_ENGINE_COUNT_MAX\<close>, and \<open>++usage_count[best_ce]\<close>
  stores at index 1 of an array of one element.
\<close>

theorem pick_ce_index_out_of_bounds:
  "pick_ce_best
     [\<lparr>supported = True, grce = False, shared = False, sysmemRead = False,
       sysmemWrite = False, sysmem = False, nvlinkP2p = False, p2p = True,
       cePceMask = 1\<rparr>] UVM_CHANNEL_TYPE_CPU_TO_GPU [0]
     = UVM_COPY_ENGINE_COUNT_MAX
         [\<lparr>supported = True, grce = False, shared = False, sysmemRead = False,
           sysmemWrite = False, sysmem = False, nvlinkP2p = False, p2p = True,
           cePceMask = 1\<rparr>]
   \<and> stores_past_end
       (pick_ce_for_channel_type
          [\<lparr>supported = True, grce = False, shared = False, sysmemRead = False,
            sysmemWrite = False, sysmem = False, nvlinkP2p = False, p2p = True,
            cePceMask = 1\<rparr>] UVM_CHANNEL_TYPE_CPU_TO_GPU
          \<lparr>usage_count = [0], ce_to_use_by_type = (\<lambda>type. 1), stores_past_end = []\<rparr>)
     = [1]"
  by (simp add: pick_ce_for_channel_type_def pick_ce_best_def pick_ce_round_def
        UVM_COPY_ENGINE_COUNT_MAX_def)

section \<open>The comparator is a lexicographic chain\<close>

lemma uint_small:
  fixes a :: NvU32
  assumes "unat a < 2 ^ 31"
  shows "uint a < 2 ^ 31"
proof -
  have "int (unat a) < int (2 ^ 31)" using assms by (simp only: of_nat_less_iff)
  then show ?thesis by (simp only: uint_nat of_nat_power of_nat_numeral)
qed

lemma sint_small:
  fixes a :: NvU32
  assumes "unat a < 2 ^ 31"
  shows "sint a = uint a"
proof -
  have "- (2 ^ 31) \<le> uint a" by (rule order_trans [of _ 0]) simp_all
  then have "signed_take_bit 31 (uint a) = uint a"
    using uint_small [OF assms] by (rule signed_take_bit_int_eq_self)
  then show ?thesis by (simp add: sint_uint)
qed

lemma sint_diff_neg:
  fixes a b :: NvU32
  assumes "unat a < 2 ^ 31" "unat b < 2 ^ 31"
  shows "sint (a - b) < 0 \<longleftrightarrow> unat a < unat b"
proof -
  have sa: "sint a = uint a" and sb: "sint b = uint b"
    using assms by (simp_all add: sint_small)
  note ua = uint_small [OF assms(1)] and ub = uint_small [OF assms(2)]
  have p: "0 \<le> uint a" "0 \<le> uint b" by simp_all
  have "- (2 ^ 31) \<le> uint a - uint b"
  proof -
    have "- uint b \<le> uint a - uint b" using p(1) by linarith
    moreover have "- (2 ^ 31) \<le> - uint b" using ub by simp
    ultimately show ?thesis by (rule order_trans [rotated])
  qed
  moreover have "uint a - uint b < 2 ^ 31"
  proof -
    have "uint a - uint b \<le> uint a" using p(2) by linarith
    then show ?thesis using ua by (rule le_less_trans)
  qed
  ultimately have "- (2 ^ 31) \<le> uint a - uint b" "uint a - uint b < 2 ^ 31" by blast+
  then have "signed_take_bit 31 (uint a - uint b) = uint a - uint b"
    by (rule signed_take_bit_int_eq_self)
  then have "sint (a - b) = uint a - uint b"
    by (simp add: sint_word_diff sa sb)
  moreover have "unat a < unat b \<longleftrightarrow> uint a < uint b"
    by (simp only: uint_nat of_nat_less_iff)
  ultimately show ?thesis by simp
qed

lemma unat_index:
  assumes "i < 2 ^ 31"
  shows "unat (word_of_nat i :: NvU32) = i"
  using assms by (simp add: unat_of_nat)

lemma hweight32_le: "hweight32 w \<le> 32"
proof -
  have "length (filter (bit w) [0..<32]) \<le> length [0..<32]" by (rule length_filter_le)
  then show ?thesis by (simp add: hweight32_def)
qed

lemma pce_rank:
  "int (hweight32 b) - int (hweight32 a) < 0 \<longleftrightarrow> 32 - hweight32 a < 32 - hweight32 b"
  "int (hweight32 b) - int (hweight32 a) = 0 \<longleftrightarrow> 32 - hweight32 a = 32 - hweight32 b"
  using hweight32_le [of a] hweight32_le [of b] by auto

lemma flag_rank_simps [simp]:
  "flag_rank a < flag_rank b \<longleftrightarrow> \<not> a \<and> b"
  "flag_rank a = flag_rank b \<longleftrightarrow> a = b"
  by (auto simp: flag_rank_def)

lemma of_bool_diff_neg [simp]: "(of_bool a - of_bool b < (0 :: int)) \<longleftrightarrow> \<not> a \<and> b"
  by (cases a; cases b) simp_all

lemma default_stages_less:
  "default_stages ce_caps usage i < default_stages ce_caps usage j \<longleftrightarrow>
     unat (usage ! i) < unat (usage ! j)
     \<or> unat (usage ! i) = unat (usage ! j)
        \<and> (\<not> shared (ce_caps ! i) \<and> shared (ce_caps ! j)
           \<or> shared (ce_caps ! i) = shared (ce_caps ! j) \<and> i < j)"
  by (simp add: default_stages_def)

lemma compare_ce_default_iff:
  assumes "i \<noteq> j" "i < 2 ^ 31" "j < 2 ^ 31"
    and "unat (usage ! i) < 2 ^ 31" "unat (usage ! j) < 2 ^ 31"
  shows "compare_ce_default ce_caps i j usage < 0
           \<longleftrightarrow> default_stages ce_caps usage i < default_stages ce_caps usage j"
proof -
  have idx: "sint (word_of_nat i - word_of_nat j :: NvU32) < 0 \<longleftrightarrow> i < j"
    using sint_diff_neg [of "word_of_nat i" "word_of_nat j"] assms(2,3)
    by (simp add: unat_index)
  have use: "sint (usage ! i - usage ! j) < 0 \<longleftrightarrow> unat (usage ! i) < unat (usage ! j)"
    by (rule sint_diff_neg [OF assms(4,5)])
  show ?thesis
  proof (cases "usage ! i = usage ! j")
    case False
    then have "unat (usage ! i) \<noteq> unat (usage ! j)" by (simp add: word_unat_eq_iff)
    with False use show ?thesis
      by (simp add: compare_ce_default_def Let_def default_stages_less)
  next
    case True
    show ?thesis
    proof (cases "shared (ce_caps ! i) = shared (ce_caps ! j)")
      case False
      with True show ?thesis
        by (simp add: compare_ce_default_def Let_def default_stages_less)
    next
      case same: True
      with True idx show ?thesis
        by (simp add: compare_ce_default_def Let_def default_stages_less)
    qed
  qed
qed

lemma stages_append_less:
  fixes p q :: "nat list"
  assumes "length p = length q"
  shows "p @ r < q @ t \<longleftrightarrow> p < q \<or> p = q \<and> r < t"
  using assms by (induction p q rule: list_induct2) auto

lemma compare_ce_iff:
  assumes "type \<noteq> UVM_CHANNEL_TYPE_ANY" "i \<noteq> j" "i < 2 ^ 31" "j < 2 ^ 31"
    and "unat (usage ! i) < 2 ^ 31" "unat (usage ! j) < 2 ^ 31"
  shows "compare_ce_for_channel_type ce_caps type i j usage < 0
           \<longleftrightarrow> comparator_stages type ce_caps usage i < comparator_stages type ce_caps usage j"
proof -
  let ?c1 = "ce_caps ! i" and ?c2 = "ce_caps ! j"
  let ?d = "compare_ce_default ce_caps i j usage < 0"
  let ?pce = "int (hweight32 (cePceMask ?c2)) - int (hweight32 (cePceMask ?c1))"
  note d = compare_ce_default_iff [OF assms(2-6), of ce_caps]
  note pce = pce_rank [of "cePceMask ?c2" "cePceMask ?c1"]
  show ?thesis
  proof (cases type)
    case UVM_CHANNEL_TYPE_CPU_TO_GPU
    have "compare_ce_for_channel_type ce_caps type i j usage < 0 \<longleftrightarrow>
            (if sysmemRead ?c1 \<noteq> sysmemRead ?c2 then sysmemRead ?c1 \<and> \<not> sysmemRead ?c2
             else if nvlinkP2p ?c1 \<noteq> nvlinkP2p ?c2 then \<not> nvlinkP2p ?c1 \<and> nvlinkP2p ?c2
             else ?d)"
      by (simp add: UVM_CHANNEL_TYPE_CPU_TO_GPU compare_ce_for_channel_type_def Let_def)
    also have "\<dots> \<longleftrightarrow> comparator_stages type ce_caps usage i
                          < comparator_stages type ce_caps usage j"
      unfolding d
      by (simp add: UVM_CHANNEL_TYPE_CPU_TO_GPU comparator_stages_def primary_stage_def
            peer_stage_def; blast)
    finally show ?thesis .
  next
    case UVM_CHANNEL_TYPE_GPU_TO_CPU
    have "compare_ce_for_channel_type ce_caps type i j usage < 0 \<longleftrightarrow>
            (if sysmemWrite ?c1 \<noteq> sysmemWrite ?c2 then sysmemWrite ?c1 \<and> \<not> sysmemWrite ?c2
             else if nvlinkP2p ?c1 \<noteq> nvlinkP2p ?c2 then \<not> nvlinkP2p ?c1 \<and> nvlinkP2p ?c2
             else ?d)"
      by (simp add: UVM_CHANNEL_TYPE_GPU_TO_CPU compare_ce_for_channel_type_def Let_def)
    also have "\<dots> \<longleftrightarrow> comparator_stages type ce_caps usage i
                          < comparator_stages type ce_caps usage j"
      unfolding d
      by (simp add: UVM_CHANNEL_TYPE_GPU_TO_CPU comparator_stages_def primary_stage_def
            peer_stage_def; blast)
    finally show ?thesis .
  next
    case UVM_CHANNEL_TYPE_GPU_INTERNAL
    have "compare_ce_for_channel_type ce_caps type i j usage < 0 \<longleftrightarrow>
            (if ?pce \<noteq> 0 then ?pce < 0
             else if nvlinkP2p ?c1 \<noteq> nvlinkP2p ?c2 then \<not> nvlinkP2p ?c1 \<and> nvlinkP2p ?c2
             else ?d)"
      by (simp add: UVM_CHANNEL_TYPE_GPU_INTERNAL compare_ce_for_channel_type_def Let_def)
    also have "\<dots> \<longleftrightarrow> comparator_stages type ce_caps usage i
                          < comparator_stages type ce_caps usage j"
      unfolding d pce
      by (simp add: UVM_CHANNEL_TYPE_GPU_INTERNAL comparator_stages_def primary_stage_def
            peer_stage_def; blast)
    finally show ?thesis .
  next
    case UVM_CHANNEL_TYPE_MEMOPS
    then show ?thesis
      using d by (simp add: compare_ce_for_channel_type_def comparator_stages_def Let_def
                    primary_stage_def)
  next
    case UVM_CHANNEL_TYPE_GPU_TO_GPU
    have "compare_ce_for_channel_type ce_caps type i j usage < 0 \<longleftrightarrow>
            (if nvlinkP2p ?c1 \<noteq> nvlinkP2p ?c2 then nvlinkP2p ?c1 \<and> \<not> nvlinkP2p ?c2
             else if nvlinkP2p ?c1 \<and> ?pce \<noteq> 0 then ?pce < 0
             else ?d)"
      by (simp add: UVM_CHANNEL_TYPE_GPU_TO_GPU compare_ce_for_channel_type_def Let_def)
    also have "\<dots> \<longleftrightarrow> comparator_stages type ce_caps usage i
                          < comparator_stages type ce_caps usage j"
      unfolding d pce
      by (simp add: UVM_CHANNEL_TYPE_GPU_TO_GPU comparator_stages_def primary_stage_def; blast)
    finally show ?thesis .
  next
    case UVM_CHANNEL_TYPE_ANY
    with assms(1) show ?thesis by simp
  qed
qed

lemma comparator_stages_last: "last (comparator_stages type ce_caps usage i) = i"
  by (simp add: comparator_stages_def default_stages_def)

lemma comparator_stages_inj:
  assumes "comparator_stages type ce_caps usage i = comparator_stages type ce_caps usage j"
  shows "i = j"
proof -
  have "i = last (comparator_stages type ce_caps usage i)"
    by (simp only: comparator_stages_last)
  also have "\<dots> = last (comparator_stages type ce_caps usage j)"
    by (simp only: assms)
  also have "\<dots> = j" by (rule comparator_stages_last)
  finally show ?thesis .
qed

lemma is_winner_unique:
  "is_winner stages eligible w \<Longrightarrow> is_winner stages eligible w' \<Longrightarrow> w = w'"
  unfolding is_winner_def by (metis less_asym)

lemma chain_winner_is_winner:
  assumes "eligible \<noteq> []" and inj: "\<And>i j. stages i = stages j \<Longrightarrow> i = j"
  shows "is_winner stages eligible (chain_winner stages eligible none)"
proof -
  let ?w = "arg_min_list stages eligible"
  have mem: "?w \<in> set eligible" by (rule arg_min_list_in [OF assms(1)])
  have "stages ?w = Min (stages ` set eligible)" by (rule f_arg_min_list_f [OF assms(1)])
  then have le: "stages ?w \<le> stages j" if "j \<in> set eligible" for j
    using that by simp
  have "stages ?w < stages j" if "j \<in> set eligible" "j \<noteq> ?w" for j
  proof -
    have "stages ?w \<noteq> stages j" using inj that(2) by blast
    with le [OF that(1)] show ?thesis by simp
  qed
  with mem show ?thesis using assms(1) by (simp add: is_winner_def chain_winner_def)
qed

lemma pick_ce_best_scan:
  "pick_ce_best ce_caps type usage =
     fold (scan_round ce_caps type usage) (eligible_engines ce_caps type) (length ce_caps)"
proof -
  have "pick_ce_round ce_caps type usage =
          (\<lambda>i. if ce_usable_for_channel_type type (ce_caps ! i)
                then scan_round ce_caps type usage i else id)"
    by (auto simp: fun_eq_iff pick_ce_round_def scan_round_def UVM_COPY_ENGINE_COUNT_MAX_def)
  then show ?thesis
    by (simp add: pick_ce_best_def eligible_engines_def fold_filter
          UVM_COPY_ENGINE_COUNT_MAX_def)
qed

lemma scan_is_winner:
  assumes type: "type \<noteq> UVM_CHANNEL_TYPE_ANY" and small: "length ce_caps < 2 ^ 31"
    and usage: "\<forall>i < length ce_caps. unat (usage ! i) < 2 ^ 31"
  shows "b < length ce_caps \<Longrightarrow> \<forall>i \<in> set xs. i < length ce_caps \<Longrightarrow> b \<notin> set xs
           \<Longrightarrow> distinct xs
           \<Longrightarrow> is_winner (comparator_stages type ce_caps usage) (b # xs)
                 (fold (scan_round ce_caps type usage) xs b)"
proof (induction xs arbitrary: b)
  case Nil
  then show ?case by (simp add: is_winner_def)
next
  case (Cons x xs)
  let ?key = "comparator_stages type ce_caps usage"
  let ?b' = "scan_round ce_caps type usage x b"
  let ?r = "fold (scan_round ce_caps type usage) xs ?b'"
  from Cons.prems have xb: "x \<noteq> b" and xN: "x < length ce_caps" and bN: "b < length ce_caps"
    by auto
  have cmp: "compare_ce_for_channel_type ce_caps type x b usage < 0 \<longleftrightarrow> ?key x < ?key b"
    using xN bN small usage by (intro compare_ce_iff [OF type xb]) auto
  have b': "?b' = (if ?key x < ?key b then x else b)"
    using bN cmp by (simp add: scan_round_def)
  have neq: "?key x \<noteq> ?key b" using comparator_stages_inj xb by blast
  define o' where "o' = (if ?key x < ?key b then b else x)"
  have lose: "?key ?b' < ?key o'" using neq by (auto simp: b' o'_def)
  have sets: "set (b # x # xs) = insert o' (set (?b' # xs))" by (auto simp: b' o'_def)
  have "is_winner ?key (?b' # xs) ?r"
    using Cons.prems by (intro Cons.IH) (auto simp: b')
  then have mem: "?r \<in> set (?b' # xs)"
    and best: "\<forall>j \<in> set (?b' # xs). j \<noteq> ?r \<longrightarrow> ?key ?r < ?key j"
    by (simp_all add: is_winner_def)
  have "?key ?r \<le> ?key ?b'" using best by (cases "?b' = ?r") auto
  with lose have "?key ?r < ?key o'" by simp
  with mem best have "is_winner ?key (b # x # xs) ?r"
    unfolding is_winner_def sets by blast
  then show ?case by simp
qed

lemma distinct_eligible: "distinct (eligible_engines ce_caps type)"
  by (simp add: eligible_engines_def)

lemma eligible_bound: "i \<in> set (eligible_engines ce_caps type) \<Longrightarrow> i < length ce_caps"
  by (simp add: eligible_engines_def)

lemma pick_ce_best_winner:
  assumes type: "type \<noteq> UVM_CHANNEL_TYPE_ANY" and small: "length ce_caps < 2 ^ 31"
    and usage: "\<forall>i < length ce_caps. unat (usage ! i) < 2 ^ 31"
  shows "pick_ce_best ce_caps type usage =
           chain_winner (comparator_stages type ce_caps usage) (eligible_engines ce_caps type)
             (length ce_caps)"
proof (cases "eligible_engines ce_caps type")
  case Nil
  then show ?thesis by (simp add: pick_ce_best_scan chain_winner_def)
next
  case (Cons x xs)
  let ?key = "comparator_stages type ce_caps usage"
  have d: "distinct (x # xs)" and bnd: "\<forall>i \<in> set (x # xs). i < length ce_caps"
    using distinct_eligible [of ce_caps type] eligible_bound [of _ ce_caps type]
    by (simp_all add: Cons)
  have "pick_ce_best ce_caps type usage = fold (scan_round ce_caps type usage) xs x"
    by (simp add: pick_ce_best_scan Cons scan_round_def)
  moreover have "is_winner ?key (x # xs) (fold (scan_round ce_caps type usage) xs x)"
    using d bnd by (intro scan_is_winner [OF type small usage]) auto
  moreover have "is_winner ?key (x # xs) (chain_winner ?key (x # xs) (length ce_caps))"
    by (rule chain_winner_is_winner) (auto dest: comparator_stages_inj)
  ultimately show ?thesis
    using is_winner_unique by (metis Cons)
qed

lemma pick_ce_for_channel_type_unfold:
  "pick_ce_for_channel_type ce_caps type
       \<lparr>usage_count = usage, ce_to_use_by_type = asg, stores_past_end = sp\<rparr>
     = \<lparr>usage_count =
          (if pick_ce_best ce_caps type usage < length usage
           then usage[pick_ce_best ce_caps type usage :=
                        usage ! pick_ce_best ce_caps type usage + 1]
           else usage),
        ce_to_use_by_type = asg(type := pick_ce_best ce_caps type usage),
        stores_past_end =
          (if pick_ce_best ce_caps type usage < length usage then sp
           else sp @ [pick_ce_best ce_caps type usage])\<rparr>"
  by (simp add: pick_ce_for_channel_type_def Let_def)

lemma unat_bump:
  fixes u :: NvU32
  assumes "unat u + Suc n < 2 ^ 31"
  shows "unat (u + 1) + n < 2 ^ 31"
proof -
  have "unat (u + 1) \<le> unat u + 1"
    by (simp add: unat_word_ariths)
  with assms show ?thesis by simp
qed

lemma fold_pick_selection:
  assumes small: "length ce_caps < 2 ^ 31"
  shows "length usage = length ce_caps
           \<Longrightarrow> \<forall>i < length usage. unat (usage ! i) + length types < 2 ^ 31
           \<Longrightarrow> UVM_CHANNEL_TYPE_ANY \<notin> set types
           \<Longrightarrow> ce_to_use_by_type
                 (fold (pick_ce_for_channel_type ce_caps) types
                    \<lparr>usage_count = usage, ce_to_use_by_type = asg, stores_past_end = sp\<rparr>)
               = select_by_chain comparator_stages ce_caps types usage asg"
proof (induction types arbitrary: usage asg sp)
  case Nil
  then show ?case by simp
next
  case (Cons type types)
  let ?w = "chain_winner (comparator_stages type ce_caps usage) (eligible_engines ce_caps type)
              (length ce_caps)"
  let ?usage' = "if ?w < length usage then usage[?w := usage ! ?w + 1] else usage"
  from Cons.prems have type: "type \<noteq> UVM_CHANNEL_TYPE_ANY"
    and rest: "UVM_CHANNEL_TYPE_ANY \<notin> set types" by auto
  have bound: "\<forall>i < length ce_caps. unat (usage ! i) < 2 ^ 31"
    using Cons.prems(1,2) by auto
  have w: "pick_ce_best ce_caps type usage = ?w"
    by (rule pick_ce_best_winner [OF type small bound])
  have len': "length ?usage' = length ce_caps" using Cons.prems(1) by simp
  have bound': "\<forall>i < length ?usage'. unat (?usage' ! i) + length types < 2 ^ 31"
  proof (intro allI impI)
    fix i assume i: "i < length ?usage'"
    then have "unat (usage ! i) + Suc (length types) < 2 ^ 31"
      using Cons.prems(2) by (auto split: if_splits)
    then have "unat (usage ! i) + length types < 2 ^ 31"
      "unat (usage ! i + 1) + length types < 2 ^ 31"
      using unat_bump [of "usage ! i" "length types"] by simp_all
    then show "unat (?usage' ! i) + length types < 2 ^ 31"
      using i by (auto simp: nth_list_update)
  qed
  have "ce_to_use_by_type
          (fold (pick_ce_for_channel_type ce_caps) (type # types)
             \<lparr>usage_count = usage, ce_to_use_by_type = asg, stores_past_end = sp\<rparr>)
        = ce_to_use_by_type
            (fold (pick_ce_for_channel_type ce_caps) types
               \<lparr>usage_count = ?usage', ce_to_use_by_type = asg(type := ?w),
                stores_past_end = (if ?w < length usage then sp else sp @ [?w])\<rparr>)"
    by (simp add: pick_ce_for_channel_type_unfold w)
  also have "\<dots> = select_by_chain comparator_stages ce_caps types ?usage' (asg(type := ?w))"
    by (rule Cons.IH [OF len' bound' rest])
  also have "\<dots> = select_by_chain comparator_stages ce_caps (type # types) usage asg"
    by (simp add: Let_def)
  finally show ?case .
qed

lemma pick_copy_engines_fold:
  "snd (channel_manager_pick_copy_engines ce_caps) =
     fold (pick_ce_for_channel_type ce_caps) selection_order
       \<lparr>usage_count = replicate (length ce_caps) 0,
        ce_to_use_by_type = (\<lambda>type. length ce_caps), stores_past_end = []\<rparr>"
  by (simp add: channel_manager_pick_copy_engines_def Let_def selection_order_def
        UVM_COPY_ENGINE_COUNT_MAX_def)

section \<open>Properties of engine selection\<close>

text \<open>
  C6, as claimed, fails. On the example table the chain of the claim, with the preference
  against peer-capable engines as second stage for every type, gives MEMOPS engine 1 (not
  NVLINK capable), while \<open>channel_manager_pick_copy_engines\<close> gives it engine 0, the
  less used one: for MEMOPS \<open>compare_ce_for_channel_type\<close> goes straight to the usage
  count.
\<close>

theorem claimed_chain_counterexample:
  "ce_to_use_by_type (snd (channel_manager_pick_copy_engines example_ce_caps))
     UVM_CHANNEL_TYPE_MEMOPS = 0
   \<and> chain_selection claimed_stages example_ce_caps UVM_CHANNEL_TYPE_MEMOPS = 1"
  by code_simp

text \<open>
  C6, amended. For every capability table of fewer than \<open>2^31\<close> engines, the engines
  that \<open>channel_manager_pick_copy_engines\<close> assigns are those of the selection that
  processes CPU_TO_GPU, GPU_TO_CPU, GPU_INTERNAL, GPU_TO_GPU, MEMOPS in this order, raises
  the usage count of each pick, and picks for each type the winner among the eligible
  engines of the chain \<open>comparator_stages\<close>: primary metric, then (for CPU_TO_GPU,
  GPU_TO_CPU and GPU_INTERNAL only) the preference against NVLINK-capable engines, then
  ascending usage count, then non-shared engines, then lowest index. The winner is eligible
  and strictly better than every other eligible engine; without an eligible engine the pick
  is \<open>UVM_COPY_ENGINE_COUNT_MAX\<close>. Being a function of the table, the assignment is the
  same on every run.
\<close>

theorem engine_selection_chain:
  assumes "length ce_caps < 2 ^ 31"
  shows "ce_to_use_by_type (snd (channel_manager_pick_copy_engines ce_caps))
           = chain_selection comparator_stages ce_caps
       \<and> (\<forall>type usage.
             eligible_engines ce_caps type \<noteq> [] \<longrightarrow>
               is_winner (comparator_stages type ce_caps usage) (eligible_engines ce_caps type)
                 (chain_winner (comparator_stages type ce_caps usage)
                    (eligible_engines ce_caps type) (length ce_caps)))
       \<and> (\<forall>type usage.
             eligible_engines ce_caps type = [] \<longrightarrow>
               chain_winner (comparator_stages type ce_caps usage)
                 (eligible_engines ce_caps type) (length ce_caps) = length ce_caps)"
proof (intro conjI allI impI)
  have "ce_to_use_by_type (snd (channel_manager_pick_copy_engines ce_caps))
          = select_by_chain comparator_stages ce_caps selection_order
              (replicate (length ce_caps) 0) (\<lambda>type. length ce_caps)"
    unfolding pick_copy_engines_fold
    by (rule fold_pick_selection [OF assms]) (simp_all add: selection_order_def)
  then show "ce_to_use_by_type (snd (channel_manager_pick_copy_engines ce_caps))
           = chain_selection comparator_stages ce_caps"
    by (simp add: chain_selection_def)
next
  fix type usage
  assume "eligible_engines ce_caps type \<noteq> []"
  then show "is_winner (comparator_stages type ce_caps usage) (eligible_engines ce_caps type)
                 (chain_winner (comparator_stages type ce_caps usage)
                    (eligible_engines ce_caps type) (length ce_caps))"
    by (rule chain_winner_is_winner) (rule comparator_stages_inj)
next
  fix type usage
  assume "eligible_engines ce_caps type = []"
  then show "chain_winner (comparator_stages type ce_caps usage)
                 (eligible_engines ce_caps type) (length ce_caps) = length ce_caps"
    by (simp add: chain_winner_def)
qed

theorem engine_selection_chain_witness:
  "length example_ce_caps < 2 ^ 31
   \<and> ce_to_use_by_type (snd (channel_manager_pick_copy_engines example_ce_caps))
        UVM_CHANNEL_TYPE_GPU_TO_GPU = 0
   \<and> is_winner (comparator_stages UVM_CHANNEL_TYPE_GPU_TO_GPU example_ce_caps [0, 3])
        (eligible_engines example_ce_caps UVM_CHANNEL_TYPE_GPU_TO_GPU) 0"
proof -
  have small: "length example_ce_caps < 2 ^ 31" by (simp add: example_ce_caps_def)
  have sel: "chain_selection comparator_stages example_ce_caps UVM_CHANNEL_TYPE_GPU_TO_GPU = 0"
    by code_simp
  have el: "eligible_engines example_ce_caps UVM_CHANNEL_TYPE_GPU_TO_GPU \<noteq> []"
    by code_simp
  have w: "chain_winner (comparator_stages UVM_CHANNEL_TYPE_GPU_TO_GPU example_ce_caps [0, 3])
             (eligible_engines example_ce_caps UVM_CHANNEL_TYPE_GPU_TO_GPU)
             (length example_ce_caps) = 0"
    by code_simp
  from engine_selection_chain [OF small] sel el w show ?thesis
    using small by metis
qed

section \<open>The fatal status\<close>

lemma check_errors_sticky:
  assumes "uvm_channel_check_errors c ecc fatal_error cv = Inr (st, c', g')"
  shows "st = uvm_channel_get_status c ecc"
    and "fatal_error \<noteq> NV_OK \<Longrightarrow> g' = fatal_error"
  using assms
  by (auto simp: uvm_channel_check_errors_def Let_def uvm_global_set_fatal_error_def
           split: if_splits sum.splits prod.splits option.splits)

lemma reserve_wait_sticky:
  "g \<noteq> NV_OK \<Longrightarrow> reserve_wait obs c g status = Some (Inr (r, c', g')) \<Longrightarrow> g' = g"
proof (induction obs arbitrary: c status)
  case Nil
  from Nil.prems(2) show ?case
    by (subst (asm) reserve_wait.simps) (auto split: sum.splits prod.splits if_splits)
next
  case (Cons ob obs)
  show ?case
  proof (cases "try_claim_channel c")
    case (Inl f)
    with Cons.prems(2) show ?thesis by (subst (asm) reserve_wait.simps) simp
  next
    case (Inr p)
    obtain claimed c1 where p: "p = (claimed, c1)" by (cases p)
    show ?thesis
    proof (cases "claimed \<or> status \<noteq> NV_OK")
      case True
      with Cons.prems(2) Inr p show ?thesis
        by (subst (asm) reserve_wait.simps) auto
    next
      case False
      with Cons.prems(2) Inr p
      have "(case uvm_channel_check_errors (observe ob c1) (obs_ecc ob) g (obs_completed ob) of
               Inl f \<Rightarrow> Some (Inl f)
             | Inr (status', c2, g2) \<Rightarrow>
                 (case uvm_channel_update_progress c2 (obs_completed ob) of
                    Inl f \<Rightarrow> Some (Inl f)
                  | Inr (pending, c3) \<Rightarrow> reserve_wait obs c3 g2 status'))
            = Some (Inr (r, c', g'))"
        by (subst (asm) reserve_wait.simps) simp
      then obtain st2 c2 g2 c3
        where ce: "uvm_channel_check_errors (observe ob c1) (obs_ecc ob) g (obs_completed ob)
                     = Inr (st2, c2, g2)"
          and rw: "reserve_wait obs c3 g2 st2 = Some (Inr (r, c', g'))"
        by (auto split: sum.splits prod.splits)
      from check_errors_sticky(2) [OF ce Cons.prems(1)] have "g2 = g" .
      with rw Cons.IH [OF Cons.prems(1)] show ?thesis by simp
    qed
  qed
qed

lemma reserve_type_wait_sticky:
  "g \<noteq> NV_OK \<Longrightarrow> reserve_type_wait obs i cs g = Some (Inr (r, found, cs', g'))
     \<Longrightarrow> g' = g"
proof (induction obs arbitrary: i cs)
  case Nil
  then show ?case by simp
next
  case (Cons ob obs)
  from Cons.prems(2) have ne: "cs \<noteq> []" by (auto split: if_splits)
  with Cons.prems(2) obtain pend c1
    where up: "uvm_channel_update_progress (observe ob (cs ! i)) (obs_completed ob)
                 = Inr (pend, c1)"
    by (auto split: sum.splits)
  with Cons.prems(2) ne obtain claimed c2
    where tc: "try_claim_channel c1 = Inr (claimed, c2)"
    by (auto split: sum.splits)
  show ?case
  proof (cases claimed)
    case True
    with Cons.prems(2) ne up tc show ?thesis by simp
  next
    case False
    with Cons.prems(2) ne up tc obtain st3 c3 g3
      where ce: "uvm_channel_check_errors c2 (obs_ecc ob) g (obs_completed ob)
                   = Inr (st3, c3, g3)"
      by (auto split: sum.splits)
    from check_errors_sticky(2) [OF ce Cons.prems(1)] have g3: "g3 = g" .
    show ?thesis
    proof (cases "st3 = NV_OK")
      case True
      with Cons.prems(2) ne up tc False ce g3
      have "reserve_type_wait obs (Suc i mod length cs) (cs[i := c3]) g
              = Some (Inr (r, found, cs', g'))"
        by simp
      then show ?thesis by (rule Cons.IH [OF Cons.prems(1)])
    next
      case bad: False
      with Cons.prems(2) ne up tc False ce g3 show ?thesis by simp
    qed
  qed
qed

text \<open>
  C5, as claimed, fails. A channel reports a fault, \<open>uvm_channel_check_errors\<close> returns
  \<open>NV_ERR_RC_ERROR\<close> and sets the global fatal status. After that a claim attempt on this
  channel succeeds, \<open>uvm_channel_reserve\<close> returns \<open>NV_OK\<close> with the claim taken, and
  \<open>uvm_channel_check_errors\<close> on a healthy channel returns \<open>NV_OK\<close>: none of them
  reads the global fatal status.
\<close>

theorem fatal_status_claim_counterexample:
  "uvm_channel_check_errors ((created_channel 4)\<lparr>errorNotifier_status := 1\<rparr>)
       \<lparr>ecc_enabled = False, ecc_error_notifier = False\<rparr> NV_OK 0
     = Inr (NV_ERR_RC_ERROR, (created_channel 4)\<lparr>errorNotifier_status := 1\<rparr>,
            NV_ERR_RC_ERROR)
   \<and> uvm_global_get_status NV_ERR_RC_ERROR = NV_ERR_RC_ERROR
   \<and> try_claim_channel ((created_channel 4)\<lparr>errorNotifier_status := 1\<rparr>)
       = Inr (True, (created_channel 4)\<lparr>errorNotifier_status := 1,
                                          current_pushes_count := 1\<rparr>)
   \<and> uvm_channel_reserve ((created_channel 4)\<lparr>errorNotifier_status := 1\<rparr>)
         NV_ERR_RC_ERROR []
       = Some (Inr (NV_OK,
                    (created_channel 4)\<lparr>errorNotifier_status := 1,
                                         current_pushes_count := 1\<rparr>,
                    NV_ERR_RC_ERROR))
   \<and> uvm_channel_check_errors (created_channel 4)
       \<lparr>ecc_enabled = False, ecc_error_notifier = False\<rparr> NV_ERR_RC_ERROR 0
     = Inr (NV_OK, created_channel 4, NV_ERR_RC_ERROR)"
  by (simp add: uvm_channel_check_errors_def uvm_channel_get_status_def
        uvm_channel_get_first_pending_entry_def channel_update_progress_all_def
        uvm_channel_update_progress_with_max_def update_progress_loop.simps
        uvm_global_set_fatal_error_def uvm_global_get_status_def
        uvm_channel_reserve_def try_claim_channel_def is_channel_available_def
        created_channel_def Let_def)

text \<open>
  C5, amended. Once the global fatal status is set, it keeps its value: setting it again
  changes nothing, and \<open>uvm_channel_check_errors\<close>, \<open>uvm_channel_reserve\<close> and
  \<open>uvm_channel_reserve_type\<close> leave it as it is. \<open>uvm_channel_manager_check_errors\<close>
  returns that status on every call, without probing a channel.
  \<open>uvm_channel_check_errors\<close> returns the status of its own channel only. Claim attempts
  do not depend on the fatal status: on a channel with a free slot \<open>try_claim_channel\<close>
  succeeds, and \<open>uvm_channel_reserve\<close> and \<open>uvm_channel_reserve_type\<close> return
  \<open>NV_OK\<close> with the claim taken.
\<close>

theorem fatal_status_scope:
  assumes "fatal_error \<noteq> NV_OK"
  shows "uvm_channel_manager_check_errors all_channels ecc fatal_error completed
           = Inr (fatal_error, all_channels, fatal_error)
       \<and> uvm_global_set_fatal_error fatal_error error = fatal_error
       \<and> (\<forall>c e cv st c' g'.
             uvm_channel_check_errors c e fatal_error cv = Inr (st, c', g')
               \<longrightarrow> g' = fatal_error \<and> st = uvm_channel_get_status c e)
       \<and> (\<forall>c obs.
             is_channel_available c = Inr True \<longrightarrow>
               try_claim_channel c
                 = Inr (True, c\<lparr>current_pushes_count := current_pushes_count c + 1\<rparr>)
               \<and> uvm_channel_reserve c fatal_error obs
                   = Some (Inr (NV_OK,
                        c\<lparr>current_pushes_count := current_pushes_count c + 1\<rparr>,
                        fatal_error)))
       \<and> (\<forall>c cs obs.
             is_channel_available c = Inr True \<longrightarrow>
               uvm_channel_reserve_type (c # cs) fatal_error obs
                 = Some (Inr (NV_OK, Some 0,
                      c\<lparr>current_pushes_count := current_pushes_count c + 1\<rparr> # cs,
                      fatal_error)))
       \<and> (\<forall>c obs r c' g'.
             uvm_channel_reserve c fatal_error obs = Some (Inr (r, c', g'))
               \<longrightarrow> g' = fatal_error)
       \<and> (\<forall>cs obs r found cs' g'.
             uvm_channel_reserve_type cs fatal_error obs = Some (Inr (r, found, cs', g'))
               \<longrightarrow> g' = fatal_error)"
proof (intro conjI allI impI)
  show "uvm_channel_manager_check_errors all_channels ecc fatal_error completed
           = Inr (fatal_error, all_channels, fatal_error)"
    using assms by (simp add: uvm_channel_manager_check_errors_def uvm_global_get_status_def)
  show "uvm_global_set_fatal_error fatal_error error = fatal_error"
    using assms by (simp add: uvm_global_set_fatal_error_def)
next
  fix c e cv st c' g'
  assume "uvm_channel_check_errors c e fatal_error cv = Inr (st, c', g')"
  then show "g' = fatal_error" "st = uvm_channel_get_status c e"
    using check_errors_sticky [of c e fatal_error cv st c' g'] assms by simp_all
next
  fix c obs
  assume a: "is_channel_available c = Inr True"
  then show claim: "try_claim_channel c
                 = Inr (True, c\<lparr>current_pushes_count := current_pushes_count c + 1\<rparr>)"
    by (simp add: try_claim_channel_def)
  then show "uvm_channel_reserve c fatal_error obs
                   = Some (Inr (NV_OK,
                        c\<lparr>current_pushes_count := current_pushes_count c + 1\<rparr>,
                        fatal_error))"
    by (simp add: uvm_channel_reserve_def)
next
  fix c cs obs
  assume a: "is_channel_available c = Inr True"
  then have "try_claim_channel c
                 = Inr (True, c\<lparr>current_pushes_count := current_pushes_count c + 1\<rparr>)"
    by (simp add: try_claim_channel_def)
  then show "uvm_channel_reserve_type (c # cs) fatal_error obs
                 = Some (Inr (NV_OK, Some 0,
                      c\<lparr>current_pushes_count := current_pushes_count c + 1\<rparr> # cs,
                      fatal_error))"
    by (simp add: uvm_channel_reserve_type_def)
next
  fix c obs r c' g'
  assume "uvm_channel_reserve c fatal_error obs = Some (Inr (r, c', g'))"
  then show "g' = fatal_error"
    by (auto simp: uvm_channel_reserve_def split: sum.splits prod.splits if_splits list.splits
             dest: reserve_wait_sticky [OF assms])
next
  fix cs obs r found cs' g'
  assume "uvm_channel_reserve_type cs fatal_error obs = Some (Inr (r, found, cs', g'))"
  then show "g' = fatal_error"
    by (auto simp: uvm_channel_reserve_type_def
             split: sum.splits prod.splits if_splits option.splits
             dest: reserve_type_wait_sticky [OF assms])
qed

theorem fatal_status_scope_witness:
  "uvm_channel_manager_check_errors [created_channel 4]
       \<lparr>ecc_enabled = False, ecc_error_notifier = False\<rparr> NV_ERR_RC_ERROR (\<lambda>i. 0)
     = Inr (NV_ERR_RC_ERROR, [created_channel 4], NV_ERR_RC_ERROR)
   \<and> uvm_channel_reserve (created_channel 4) NV_ERR_RC_ERROR []
     = Some (Inr (NV_OK, (created_channel 4)\<lparr>current_pushes_count := 1\<rparr>, NV_ERR_RC_ERROR))"
proof -
  have f: "NV_ERR_RC_ERROR \<noteq> NV_OK" by simp
  have a: "is_channel_available (created_channel 4) = Inr True"
    by (simp add: is_channel_available_def created_channel_def)
  have c: "(created_channel 4)\<lparr>current_pushes_count :=
              current_pushes_count (created_channel 4) + 1\<rparr>
            = (created_channel 4)\<lparr>current_pushes_count := 1\<rparr>"
    by (simp add: created_channel_def)
  from fatal_status_scope [OF f, of "[created_channel 4]"
         "\<lparr>ecc_enabled = False, ecc_error_notifier = False\<rparr>" "\<lambda>i. 0"] a c
  show ?thesis by metis
qed

end
